theory Spec2Isabelle
  imports Main "HOL-Library.Word"
begin

section \<open>Load balancer: round robin\<close>

text \<open>
  Package \<open>loadbalancer\<close>. An endpoint URL is modelled by its string form; a nil
  result of \<open>NextTarget\<close> is \<open>None\<close>. The read/write mutex serialises the calls, so a
  call is a function from the balancer's state to a result and the next state.
\<close>

type_synonym url = string

record RoundRobin =
  rr_targets :: "url list"
  rr_current :: "64 word"

definition NewRoundRobin :: "url list \<Rightarrow> RoundRobin" where
  "NewRoundRobin ts = \<lparr>rr_targets = ts, rr_current = 0\<rparr>"

text \<open>
  \<open>atomic.AddUint64(&rr.current, 1)\<close> stores the incremented counter (wrapping at
  \<open>2^64\<close>) and returns the new value; the index is that value modulo the length.
\<close>

definition RoundRobin_NextTarget :: "RoundRobin \<Rightarrow> url option \<times> RoundRobin" where
  "RoundRobin_NextTarget rr =
     (if length (rr_targets rr) = 0 then (None, rr)
      else let c = rr_current rr + 1;
               index = unat c mod length (rr_targets rr)
           in (Some (rr_targets rr ! index), rr\<lparr>rr_current := c\<rparr>))"

text \<open>\<open>n\<close> sequential calls, with the results in call order.\<close>

fun RoundRobin_calls :: "nat \<Rightarrow> RoundRobin \<Rightarrow> url option list \<times> RoundRobin" where
  "RoundRobin_calls 0 rr = ([], rr)"
| "RoundRobin_calls (Suc n) rr =
     (let (r, rr1) = RoundRobin_NextTarget rr;
          (rs, rr2) = RoundRobin_calls n rr1
      in (r # rs, rr2))"


section \<open>Load balancer: weighted round robin\<close>

text \<open>
  \<open>Weight\<close>, \<open>CurrentWeight\<close> and the total weight are Go \<open>int\<close> values: 64-bit
  two's complement on the platforms the gateway is built for, so additions and
  subtractions wrap at \<open>2^63\<close> and comparisons are signed.
\<close>

record WeightedTarget =
  wt_URL :: url
  Weight :: "64 word"
  CurrentWeight :: "64 word"

record WeightedRoundRobin =
  wrr_targets :: "WeightedTarget list"
  wrr_current :: "64 word"

text \<open>A nil \<open>weights\<close> slice is the empty list: every endpoint then gets weight 1.\<close>

definition NewWeightedRoundRobin :: "url list \<Rightarrow> 64 word list \<Rightarrow> WeightedRoundRobin" where
  "NewWeightedRoundRobin targets weights =
     \<lparr>wrr_targets =
        map (\<lambda>i. \<lparr>wt_URL = targets ! i,
                   Weight = (if i < length weights \<and> sint (weights ! i) > 0
                             then weights ! i else 1),
                   CurrentWeight = 0\<rparr>)
            [0..<length targets],
      wrr_current = 0\<rparr>"

text \<open>
  The first loop of \<open>NextTarget\<close>: it accumulates the total weight and adds each
  endpoint's weight to its current weight.
\<close>

fun addWeights :: "64 word \<Rightarrow> WeightedTarget list \<Rightarrow> 64 word \<times> WeightedTarget list" where
  "addWeights totalWeight [] = (totalWeight, [])"
| "addWeights totalWeight (t # ts) =
     (let (total, ts') = addWeights (totalWeight + Weight t) ts
      in (total, t\<lparr>CurrentWeight := CurrentWeight t + Weight t\<rparr> # ts'))"

text \<open>
  The second loop: \<open>selected\<close> is a pointer into the slice, modelled by the index
  it points at; a later endpoint replaces it only with a strictly higher current weight.
\<close>

definition selectHighest :: "WeightedTarget list \<Rightarrow> nat option" where
  "selectHighest ts =
     foldl (\<lambda>selected i.
              case selected of
                None \<Rightarrow> Some i
              | Some s \<Rightarrow>
                  if sint (CurrentWeight (ts ! i)) > sint (CurrentWeight (ts ! s)) then Some i
                  else Some s)
           None [0..<length ts]"

definition WeightedRoundRobin_select ::
  "WeightedRoundRobin \<Rightarrow> nat option \<times> WeightedRoundRobin" where
  "WeightedRoundRobin_select wrr =
     (if length (wrr_targets wrr) = 0 then (None, wrr)
      else let (totalWeight, ts) = addWeights 0 (wrr_targets wrr)
           in case selectHighest ts of
                Some s \<Rightarrow>
                  (Some s,
                   wrr\<lparr>wrr_targets :=
                     ts[s := (ts ! s)\<lparr>CurrentWeight := CurrentWeight (ts ! s) - totalWeight\<rparr>]\<rparr>)
              | None \<Rightarrow> (None, wrr\<lparr>wrr_targets := ts\<rparr>))"

text \<open>\<open>NextTarget\<close> returns the URL of the selected endpoint.\<close>

definition WeightedRoundRobin_NextTarget ::
  "WeightedRoundRobin \<Rightarrow> url option \<times> WeightedRoundRobin" where
  "WeightedRoundRobin_NextTarget wrr =
     (let (sel, wrr') = WeightedRoundRobin_select wrr
      in (map_option (\<lambda>s. wt_URL (wrr_targets wrr ! s)) sel, wrr'))"

text \<open>
  \<open>n\<close> sequential selections: the indices selected (\<open>selections\<close>) and the URLs
  returned (\<open>calls\<close>), in call order.
\<close>

fun WeightedRoundRobin_selections ::
  "nat \<Rightarrow> WeightedRoundRobin \<Rightarrow> nat option list \<times> WeightedRoundRobin" where
  "WeightedRoundRobin_selections 0 wrr = ([], wrr)"
| "WeightedRoundRobin_selections (Suc n) wrr =
     (let (s, wrr1) = WeightedRoundRobin_select wrr;
          (ss, wrr2) = WeightedRoundRobin_selections n wrr1
      in (s # ss, wrr2))"

fun WeightedRoundRobin_calls ::
  "nat \<Rightarrow> WeightedRoundRobin \<Rightarrow> url option list \<times> WeightedRoundRobin" where
  "WeightedRoundRobin_calls 0 wrr = ([], wrr)"
| "WeightedRoundRobin_calls (Suc n) wrr =
     (let (r, wrr1) = WeightedRoundRobin_NextTarget wrr;
          (rs, wrr2) = WeightedRoundRobin_calls n wrr1
      in (r # rs, wrr2))"

text \<open>
  The weights as the integers they denote: \<open>weightOf\<close> and \<open>currentOf\<close> read the two
  fields as signed values, \<open>totalWeight\<close> is the sum of the weights as an unbounded
  integer, and \<open>fits_int64\<close> says that the number of endpoints times that sum is below
  \<open>2^63\<close>.
\<close>

definition weightOf :: "WeightedTarget \<Rightarrow> int" where
  "weightOf t = sint (Weight t)"

definition currentOf :: "WeightedTarget \<Rightarrow> int" where
  "currentOf t = sint (CurrentWeight t)"

definition totalWeight :: "WeightedRoundRobin \<Rightarrow> int" where
  "totalWeight wrr = sum_list (map weightOf (wrr_targets wrr))"

definition fits_int64 :: "WeightedRoundRobin \<Rightarrow> bool" where
  "fits_int64 wrr \<longleftrightarrow> int (length (wrr_targets wrr)) * totalWeight wrr < 2 ^ 63"

definition bumped :: "WeightedTarget list \<Rightarrow> WeightedTarget list" where
  "bumped ts = map (\<lambda>t. t\<lparr>CurrentWeight := CurrentWeight t + Weight t\<rparr>) ts"

text \<open>
  The invariant of the selection loop (\<open>wrr_ok\<close>): weights that are positive and fit,
  current weights that sum to zero and stay above minus the sum of the weights.
  \<open>wrr_fresh\<close> is the state the constructor builds when the weights fit.
\<close>

definition wrr_ok :: "WeightedRoundRobin \<Rightarrow> bool" where
  "wrr_ok wrr \<longleftrightarrow>
     wrr_targets wrr \<noteq> [] \<and> fits_int64 wrr \<and>
     (\<forall>j<length (wrr_targets wrr). 0 < weightOf (wrr_targets wrr ! j)) \<and>
     (\<Sum>j<length (wrr_targets wrr). currentOf (wrr_targets wrr ! j)) = 0 \<and>
     (\<forall>j<length (wrr_targets wrr). - totalWeight wrr < currentOf (wrr_targets wrr ! j))"

definition wrr_fresh :: "WeightedRoundRobin \<Rightarrow> bool" where
  "wrr_fresh wrr \<longleftrightarrow>
     wrr_targets wrr \<noteq> [] \<and> fits_int64 wrr \<and>
     (\<forall>j<length (wrr_targets wrr).
        0 < weightOf (wrr_targets wrr ! j) \<and> CurrentWeight (wrr_targets wrr ! j) = 0)"

section \<open>Load balancer: least connections\<close>

text \<open>
  \<open>Connections\<close> is an \<open>int64\<close> updated by \<open>atomic.AddInt64\<close> and compared as a
  signed value.
\<close>

record ConnectionTarget =
  ct_URL :: url
  Connections :: "64 word"
  Healthy :: bool

record LeastConnections =
  lc_targets :: "ConnectionTarget list"

definition NewLeastConnections :: "url list \<Rightarrow> LeastConnections" where
  "NewLeastConnections targets =
     \<lparr>lc_targets = map (\<lambda>target. \<lparr>ct_URL = target, Connections = 0, Healthy = True\<rparr>) targets\<rparr>"

text \<open>
  The selection loop of \<open>NextTarget\<close>: unhealthy endpoints are skipped; \<open>selected\<close>
  (a pointer, modelled by its index) is replaced only by a strictly smaller count.
\<close>

definition selectLeast :: "ConnectionTarget list \<Rightarrow> nat option" where
  "selectLeast ts =
     foldl (\<lambda>selected i.
              if \<not> Healthy (ts ! i) then selected
              else case selected of
                     None \<Rightarrow> Some i
                   | Some s \<Rightarrow>
                       if sint (Connections (ts ! i)) < sint (Connections (ts ! s)) then Some i
                       else Some s)
           None [0..<length ts]"

definition LeastConnections_select :: "LeastConnections \<Rightarrow> nat option \<times> LeastConnections" where
  "LeastConnections_select lc =
     (if length (lc_targets lc) = 0 then (None, lc)
      else case selectLeast (lc_targets lc) of
             Some s \<Rightarrow>
               (Some s,
                lc\<lparr>lc_targets :=
                  (lc_targets lc)[s := (lc_targets lc ! s)
                     \<lparr>Connections := Connections (lc_targets lc ! s) + 1\<rparr>]\<rparr>)
           | None \<Rightarrow> (None, lc))"

definition LeastConnections_NextTarget :: "LeastConnections \<Rightarrow> url option \<times> LeastConnections" where
  "LeastConnections_NextTarget lc =
     (let (sel, lc') = LeastConnections_select lc
      in (map_option (\<lambda>s. ct_URL (lc_targets lc ! s)) sel, lc'))"

text \<open>
  \<open>MarkHealthy\<close> and \<open>MarkUnhealthy\<close> set the flag of the first endpoint whose URL
  string equals the argument, and stop there.
\<close>

fun setHealthy :: "url \<Rightarrow> bool \<Rightarrow> ConnectionTarget list \<Rightarrow> ConnectionTarget list" where
  "setHealthy target h [] = []"
| "setHealthy target h (t # ts) =
     (if ct_URL t = target then t\<lparr>Healthy := h\<rparr> # ts else t # setHealthy target h ts)"

definition LeastConnections_MarkHealthy :: "LeastConnections \<Rightarrow> url \<Rightarrow> LeastConnections" where
  "LeastConnections_MarkHealthy lc target =
     lc\<lparr>lc_targets := setHealthy target True (lc_targets lc)\<rparr>"

definition LeastConnections_MarkUnhealthy :: "LeastConnections \<Rightarrow> url \<Rightarrow> LeastConnections" where
  "LeastConnections_MarkUnhealthy lc target =
     lc\<lparr>lc_targets := setHealthy target False (lc_targets lc)\<rparr>"

fun findTarget :: "url \<Rightarrow> ConnectionTarget list \<Rightarrow> ConnectionTarget option" where
  "findTarget target [] = None"
| "findTarget target (t # ts) = (if ct_URL t = target then Some t else findTarget target ts)"

definition LeastConnections_IsHealthy :: "LeastConnections \<Rightarrow> url \<Rightarrow> bool" where
  "LeastConnections_IsHealthy lc target =
     (case findTarget target (lc_targets lc) of Some t \<Rightarrow> Healthy t | None \<Rightarrow> False)"

text \<open>A sequence of calls on one balancer; the results of the \<open>NextTarget\<close> calls.\<close>

datatype lc_call = CallNextTarget | CallMarkHealthy url | CallMarkUnhealthy url

fun LeastConnections_run ::
  "lc_call list \<Rightarrow> LeastConnections \<Rightarrow> url option list \<times> LeastConnections" where
  "LeastConnections_run [] lc = ([], lc)"
| "LeastConnections_run (CallNextTarget # cs) lc =
     (let (r, lc1) = LeastConnections_NextTarget lc;
          (rs, lc2) = LeastConnections_run cs lc1
      in (r # rs, lc2))"
| "LeastConnections_run (CallMarkHealthy u # cs) lc =
     LeastConnections_run cs (LeastConnections_MarkHealthy lc u)"
| "LeastConnections_run (CallMarkUnhealthy u # cs) lc =
     LeastConnections_run cs (LeastConnections_MarkUnhealthy lc u)"

text \<open>
  \<open>all_unhealthy u ts\<close>: every endpoint of \<open>ts\<close> with URL \<open>u\<close> is marked unhealthy.
  \<open>connections_of u ts\<close>: the connection counters of the endpoints with URL \<open>u\<close>.
\<close>

definition all_unhealthy :: "url \<Rightarrow> ConnectionTarget list \<Rightarrow> bool" where
  "all_unhealthy u ts = list_all (\<lambda>t. ct_URL t \<noteq> u \<or> \<not> Healthy t) ts"

definition connections_of :: "url \<Rightarrow> ConnectionTarget list \<Rightarrow> 64 word list" where
  "connections_of u ts = map Connections (filter (\<lambda>t. ct_URL t = u) ts)"

section \<open>Errors\<close>

text \<open>
  The non-nil \<open>error\<close> values the modelled functions build with \<open>fmt.Errorf\<close>, one
  constructor per message, with the formatted arguments as data. A returned \<open>error\<close> is
  an \<open>error option\<close>: \<open>None\<close> is nil.
\<close>

datatype error =
    BreakerNotFound string
  | RateLimitError string
  | InvalidServerPort int
  | JWTSecretRequired
  | RateLimitRequestsNotPositive
  | ConfigValidationFailed error
  | ReadConfigFailed string
  | UnmarshalConfigFailed string

section \<open>Configuration\<close>

text \<open>
  Package \<open>config\<close>: the fields of \<open>Config\<close> that validation, the rate limiter and the
  breakers read. A \<open>time.Duration\<close> is an integer number of nanoseconds; a Go map read
  from the file is an association list.
\<close>

record RateLimitRule =
  Requests :: int
  Window :: int
  Burst :: int

record RateLimitConfig =
  rl_Enabled :: bool
  rl_Algorithm :: string
  rl_Default :: RateLimitRule
  rl_PerUser :: "(string \<times> RateLimitRule) list"
  rl_PerService :: "(string \<times> RateLimitRule) list"

record CircuitBreakerConfig =
  cb_Enabled :: bool
  FailureThreshold :: int
  RecoveryTimeout :: int
  HalfOpenRequests :: int

record ServiceConfig =
  URLs :: "string list"
  LoadBalancer :: string
  Timeout :: int
  Retries :: int
  sc_CircuitBreaker :: CircuitBreakerConfig

record ServerConfig =
  Port :: int
  Host :: string

record JWTConfig =
  Secret :: string

record AuthConfig =
  JWT :: JWTConfig

record RoutingConfig =
  Services :: "(string \<times> ServiceConfig) list"

record Config =
  Server :: ServerConfig
  Auth :: AuthConfig
  RateLimit :: RateLimitConfig
  Routing :: RoutingConfig

definition validateConfig :: "Config \<Rightarrow> error option" where
  "validateConfig config =
     (if Port (Server config) \<le> 0 \<or> Port (Server config) > 65535
        then Some (InvalidServerPort (Port (Server config)))
      else if Secret (JWT (Auth config)) = ''''
        then Some JWTSecretRequired
      else if rl_Enabled (RateLimit config) \<and> Requests (rl_Default (RateLimit config)) \<le> 0
        then Some RateLimitRequestsNotPositive
      else None)"

text \<open>
  The configuration manager holds the active configuration (nil before the first
  successful load). What viper does with the file (read, apply defaults, unmarshal) is the
  input of \<open>Load\<close>: it fails to read, fails to unmarshal, or yields a \<open>Config\<close>.
\<close>

record config_Manager =
  cfg_active :: "Config option"

datatype viper_outcome = ReadFails string | UnmarshalFails string | Unmarshalled Config

definition config_Load :: "config_Manager \<Rightarrow> viper_outcome \<Rightarrow> error option \<times> config_Manager" where
  "config_Load m file =
     (case file of
        ReadFails e \<Rightarrow> (Some (ReadConfigFailed e), m)
      | UnmarshalFails e \<Rightarrow> (Some (UnmarshalConfigFailed e), m)
      | Unmarshalled config \<Rightarrow>
          (case validateConfig config of
             Some err \<Rightarrow> (Some (ConfigValidationFailed err), m)
           | None \<Rightarrow> (None, m\<lparr>cfg_active := Some config\<rparr>)))"

section \<open>Circuit breaker manager\<close>

text \<open>
  Package \<open>circuit\<close> wraps the third-party \<open>gobreaker\<close> breaker. Of that object the
  model keeps what \<open>State()\<close> and \<open>Counts()\<close> report. \<open>gobreaker\<close> clears the counts
  on every state change and, while Open, rejects a call before counting it: an Open
  breaker reports zero counts, so only the Closed and the HalfOpen breaker carry counts.
  A disabled breaker has a nil \<open>breaker\<close> field.
\<close>

datatype gobreaker_State = StateClosed | StateHalfOpen | StateOpen

record gobreaker_Counts =
  cnt_Requests :: "32 word"
  cnt_TotalSuccesses :: "32 word"
  cnt_TotalFailures :: "32 word"
  cnt_ConsecutiveSuccesses :: "32 word"
  cnt_ConsecutiveFailures :: "32 word"

datatype gobreaker_CircuitBreaker =
  BreakerClosed gobreaker_Counts
| BreakerHalfOpen gobreaker_Counts
| BreakerOpen

definition zeroCounts :: gobreaker_Counts where
  "zeroCounts = \<lparr>cnt_Requests = 0, cnt_TotalSuccesses = 0, cnt_TotalFailures = 0,
                  cnt_ConsecutiveSuccesses = 0, cnt_ConsecutiveFailures = 0\<rparr>"

fun gobreaker_CircuitBreaker_State :: "gobreaker_CircuitBreaker \<Rightarrow> gobreaker_State" where
  "gobreaker_CircuitBreaker_State (BreakerClosed counts) = StateClosed"
| "gobreaker_CircuitBreaker_State (BreakerHalfOpen counts) = StateHalfOpen"
| "gobreaker_CircuitBreaker_State BreakerOpen = StateOpen"

fun gobreaker_CircuitBreaker_Counts :: "gobreaker_CircuitBreaker \<Rightarrow> gobreaker_Counts" where
  "gobreaker_CircuitBreaker_Counts (BreakerClosed counts) = counts"
| "gobreaker_CircuitBreaker_Counts (BreakerHalfOpen counts) = counts"
| "gobreaker_CircuitBreaker_Counts BreakerOpen = zeroCounts"

record CircuitBreaker =
  cb_breaker :: "gobreaker_CircuitBreaker option"

record circuit_Manager =
  cm_breakers :: "string \<rightharpoonup> CircuitBreaker"

definition CircuitBreaker_State :: "CircuitBreaker \<Rightarrow> gobreaker_State" where
  "CircuitBreaker_State cb =
     (case cb_breaker cb of None \<Rightarrow> StateClosed | Some b \<Rightarrow> gobreaker_CircuitBreaker_State b)"

definition CircuitBreaker_Counts :: "CircuitBreaker \<Rightarrow> gobreaker_Counts" where
  "CircuitBreaker_Counts cb =
     (case cb_breaker cb of None \<Rightarrow> zeroCounts | Some b \<Rightarrow> gobreaker_CircuitBreaker_Counts b)"

text \<open>
  \<open>ResetBreaker\<close>: after the two nil checks the body only logs
  ``Circuit breaker reset requested'' and returns nil.
\<close>

definition ResetBreaker :: "circuit_Manager \<Rightarrow> string \<Rightarrow> error option \<times> circuit_Manager" where
  "ResetBreaker m name =
     (case cm_breakers m name of
        None \<Rightarrow> (Some (BreakerNotFound name), m)
      | Some breaker \<Rightarrow>
          (case cb_breaker breaker of
             None \<Rightarrow> (None, m)
           | Some b \<Rightarrow> (None, m)))"

section \<open>Rate limiting algorithms\<close>

text \<open>
  Package \<open>ratelimit\<close>. The reading of \<open>time.Now()\<close> is an argument \<open>now\<close> of each
  call, in nanoseconds since the Unix epoch. \<open>Allow\<close> returns \<open>(bool, error)\<close>.
\<close>

type_synonym decision = "bool \<times> error option"

subsection \<open>Token bucket\<close>

text \<open>
  The token bucket keeps one \<open>rate.Limiter\<close> of the third-party package
  \<open>golang.org/x/time/rate\<close> per key. That package is a parameter of the model: its
  constructor and its \<open>Allow\<close>, on a limiter state of type \<open>'l\<close>.
\<close>

record 'l rate_package =
  rate_NewLimiter :: "int \<Rightarrow> int \<Rightarrow> 'l"
  rate_Allow :: "'l \<Rightarrow> int \<Rightarrow> bool \<times> 'l"

record 'l TokenBucket =
  tb_limiters :: "string \<rightharpoonup> 'l"
  tb_rate :: int
  tb_burst :: int

definition NewTokenBucket :: "int \<Rightarrow> int \<Rightarrow> 'l TokenBucket" where
  "NewTokenBucket rps burst = \<lparr>tb_limiters = Map.empty, tb_rate = rps, tb_burst = burst\<rparr>"

definition TokenBucket_Allow ::
  "'l rate_package \<Rightarrow> 'l TokenBucket \<Rightarrow> string \<Rightarrow> int \<Rightarrow> decision \<times> 'l TokenBucket" where
  "TokenBucket_Allow pkg tb key now =
     (let limiter = (case tb_limiters tb key of
                       Some l \<Rightarrow> l
                     | None \<Rightarrow> rate_NewLimiter pkg (tb_rate tb) (tb_burst tb));
          (allowed, limiter') = rate_Allow pkg limiter now
      in ((allowed, None), tb\<lparr>tb_limiters := (tb_limiters tb)(key \<mapsto> limiter')\<rparr>))"

subsection \<open>Sliding window log\<close>

record SlidingWindow =
  sw_windows :: "string \<rightharpoonup> int list"
  sw_limit :: int
  sw_window :: int

definition NewSlidingWindow :: "int \<Rightarrow> int \<Rightarrow> SlidingWindow" where
  "NewSlidingWindow limit window =
     \<lparr>sw_windows = Map.empty, sw_limit = limit, sw_window = window\<rparr>"

text \<open>
  The trimming loop \<open>for i < len(requests) && requests[i].Before(cutoff) { i++ }\<close>:
  the number of leading timestamps strictly before the cutoff.
\<close>

fun oldPrefix :: "int \<Rightarrow> int list \<Rightarrow> nat" where
  "oldPrefix cutoff [] = 0"
| "oldPrefix cutoff (t # ts) = (if t < cutoff then Suc (oldPrefix cutoff ts) else 0)"

definition SlidingWindow_Allow ::
  "SlidingWindow \<Rightarrow> string \<Rightarrow> int \<Rightarrow> decision \<times> SlidingWindow" where
  "SlidingWindow_Allow sw key now =
     (let requests0 = (case sw_windows sw key of Some w \<Rightarrow> w | None \<Rightarrow> []);
          cutoff = now - sw_window sw;
          requests = drop (oldPrefix cutoff requests0) requests0
      in if int (length requests) \<ge> sw_limit sw
         then ((False, None), sw\<lparr>sw_windows := (sw_windows sw)(key \<mapsto> requests)\<rparr>)
         else ((True, None), sw\<lparr>sw_windows := (sw_windows sw)(key \<mapsto> requests @ [now])\<rparr>))"

subsection \<open>Fixed window\<close>

record Counter =
  cnt_count :: int
  cnt_window :: int

record FixedWindow =
  fw_counters :: "string \<rightharpoonup> Counter"
  fw_limit :: int
  fw_window :: int

definition NewFixedWindow :: "int \<Rightarrow> int \<Rightarrow> FixedWindow" where
  "NewFixedWindow limit window =
     \<lparr>fw_counters = Map.empty, fw_limit = limit, fw_window = window\<rparr>"

text \<open>
  \<open>Time.Truncate\<close> rounds down to a multiple of \<open>d\<close> counted from Go's zero time
  (year 1), which is \<open>62135596800\<close> seconds before the Unix epoch; for \<open>d \<le> 0\<close> it
  returns the time unchanged.
\<close>

definition time_Truncate :: "int \<Rightarrow> int \<Rightarrow> int" where
  "time_Truncate t d =
     (if d \<le> 0 then t else t - (t + 62135596800 * 1000000000) mod d)"

definition FixedWindow_Allow ::
  "FixedWindow \<Rightarrow> string \<Rightarrow> int \<Rightarrow> decision \<times> FixedWindow" where
  "FixedWindow_Allow fw key now =
     (let counter0 = (case fw_counters fw key of
                        Some c \<Rightarrow> c
                      | None \<Rightarrow> \<lparr>cnt_count = 0, cnt_window = time_Truncate now (fw_window fw)\<rparr>);
          currentWindow = time_Truncate now (fw_window fw);
          counter = (if currentWindow > cnt_window counter0
                     then \<lparr>cnt_count = 0, cnt_window = currentWindow\<rparr> else counter0)
      in if cnt_count counter \<ge> fw_limit fw
         then ((False, None), fw\<lparr>fw_counters := (fw_counters fw)(key \<mapsto> counter)\<rparr>)
         else ((True, None),
               fw\<lparr>fw_counters :=
                    (fw_counters fw)(key \<mapsto> counter\<lparr>cnt_count := cnt_count counter + 1\<rparr>)\<rparr>))"

subsection \<open>Distributed limiter\<close>

text \<open>
  The Redis server as the script sees it: per key a sorted set of \<open>(member, score)\<close>
  pairs with distinct members, and the time-to-live last set by \<open>EXPIRE\<close> (recorded,
  not enacted). \<open>redis_up\<close> is false when the script call returns an error. Lua numbers
  are modelled as integers.
\<close>

type_synonym zset = "(int \<times> int) list"

record redis =
  redis_up :: bool
  redis_zsets :: "string \<rightharpoonup> zset"
  redis_ttl :: "string \<rightharpoonup> int"

text \<open>\<open>ZREMRANGEBYSCORE key -inf max\<close> removes every member with score \<open>\<le> max\<close>.\<close>

definition zremrangebyscore :: "zset \<Rightarrow> int \<Rightarrow> zset" where
  "zremrangebyscore zs mx = filter (\<lambda>(member, score). \<not> score \<le> mx) zs"

text \<open>\<open>ZADD key score member\<close> updates the score of a member already present.\<close>

definition zadd :: "zset \<Rightarrow> int \<Rightarrow> int \<Rightarrow> zset" where
  "zadd zs score member =
     (if member \<in> fst ` set zs
      then map (\<lambda>(m, s). if m = member then (m, score) else (m, s)) zs
      else zs @ [(member, score)])"

definition zcard :: "zset \<Rightarrow> int" where
  "zcard zs = int (length zs)"

text \<open>
  The Lua script of \<open>NewDistributedRateLimit\<close>, with \<open>KEYS[1] = key\<close>,
  \<open>ARGV[1] = window\<close>, \<open>ARGV[2] = limit\<close>, \<open>ARGV[3] = now\<close>. It returns the table
  \<open>{allowed, remaining}\<close>.
\<close>

definition rateLimitScript ::
  "redis \<Rightarrow> string \<Rightarrow> int \<Rightarrow> int \<Rightarrow> int \<Rightarrow> (int \<times> int) \<times> redis" where
  "rateLimitScript r key window limit now =
     (let zs0 = (case redis_zsets r key of Some zs \<Rightarrow> zs | None \<Rightarrow> []);
          zs = zremrangebyscore zs0 (now - window * 1000);
          current = zcard zs
      in if current < limit
         then ((1, limit - current - 1),
               r\<lparr>redis_zsets := (redis_zsets r)(key \<mapsto> zadd zs now now),
                  redis_ttl := (redis_ttl r)(key \<mapsto> window)\<rparr>)
         else ((0, 0), r\<lparr>redis_zsets := (redis_zsets r)(key \<mapsto> zs)\<rparr>))"

record DistributedRateLimit =
  drl_limit :: int
  drl_window :: int

definition NewDistributedRateLimit :: "int \<Rightarrow> int \<Rightarrow> DistributedRateLimit" where
  "NewDistributedRateLimit limit window = \<lparr>drl_limit = limit, drl_window = window\<rparr>"

text \<open>Go's integer division truncates towards zero.\<close>

definition go_div :: "int \<Rightarrow> int \<Rightarrow> int" where
  "go_div a b = sgn a * sgn b * (\<bar>a\<bar> div \<bar>b\<bar>)"

text \<open>
  \<open>Allow\<close> passes \<open>windowMs = int64(drl.window / time.Millisecond)\<close>, the limit and
  \<open>time.Now().UnixMilli()\<close> to the script, in that order.
\<close>

definition DistributedRateLimit_Allow ::
  "DistributedRateLimit \<Rightarrow> string \<Rightarrow> int \<Rightarrow> redis \<Rightarrow> decision \<times> redis" where
  "DistributedRateLimit_Allow drl key now r =
     (let nowMs = now div 1000000;
          windowMs = go_div (drl_window drl) 1000000
      in if \<not> redis_up r then ((False, Some (RateLimitError ''redis'')), r)
         else let ((allowed, remaining), r') = rateLimitScript r key windowMs (drl_limit drl) nowMs
              in ((allowed = 1, None), r'))"

subsection \<open>The rate limit manager\<close>

datatype 'l Algorithm =
    TokenBucketAlg "'l TokenBucket"
  | SlidingWindowAlg SlidingWindow
  | FixedWindowAlg FixedWindow
  | DistributedAlg DistributedRateLimit

fun Algorithm_Allow ::
  "'l rate_package \<Rightarrow> 'l Algorithm \<Rightarrow> string \<Rightarrow> int \<Rightarrow> redis \<Rightarrow>
     decision \<times> 'l Algorithm \<times> redis" where
  "Algorithm_Allow pkg (TokenBucketAlg tb) key now r =
     (let (d, tb') = TokenBucket_Allow pkg tb key now in (d, TokenBucketAlg tb', r))"
| "Algorithm_Allow pkg (SlidingWindowAlg sw) key now r =
     (let (d, sw') = SlidingWindow_Allow sw key now in (d, SlidingWindowAlg sw', r))"
| "Algorithm_Allow pkg (FixedWindowAlg fw) key now r =
     (let (d, fw') = FixedWindow_Allow fw key now in (d, FixedWindowAlg fw', r))"
| "Algorithm_Allow pkg (DistributedAlg drl) key now r =
     (let (d, r') = DistributedRateLimit_Allow drl key now r in (d, DistributedAlg drl, r'))"

record 'l ratelimit_Manager =
  rl_algorithms :: "string \<rightharpoonup> 'l Algorithm"
  rl_config :: RateLimitConfig

text \<open>
  \<open>initializeAlgorithms\<close>: the first \<open>switch\<close> registers the \<open>"default"\<close> algorithm;
  \<open>redisClient\<close> is true when the client pointer is not nil.
\<close>

definition defaultAlgorithm :: "RateLimitConfig \<Rightarrow> bool \<Rightarrow> 'l Algorithm" where
  "defaultAlgorithm cfg redisClient =
     (if rl_Algorithm cfg = ''token_bucket''
        then TokenBucketAlg (NewTokenBucket (Requests (rl_Default cfg)) (Burst (rl_Default cfg)))
      else if rl_Algorithm cfg = ''sliding_window''
        then SlidingWindowAlg (NewSlidingWindow (Requests (rl_Default cfg)) (Window (rl_Default cfg)))
      else if rl_Algorithm cfg = ''fixed_window''
        then FixedWindowAlg (NewFixedWindow (Requests (rl_Default cfg)) (Window (rl_Default cfg)))
      else if rl_Algorithm cfg = ''distributed''
        then (if redisClient
              then DistributedAlg
                     (NewDistributedRateLimit (Requests (rl_Default cfg)) (Window (rl_Default cfg)))
              else TokenBucketAlg
                     (NewTokenBucket (Requests (rl_Default cfg)) (Burst (rl_Default cfg))))
      else TokenBucketAlg (NewTokenBucket (Requests (rl_Default cfg)) (Burst (rl_Default cfg))))"

text \<open>The \<open>switch\<close> inside the per-user and per-service loops; it has no default case.\<close>

definition scopedAlgorithm :: "string \<Rightarrow> bool \<Rightarrow> RateLimitRule \<Rightarrow> 'l Algorithm option" where
  "scopedAlgorithm algorithm redisClient rule =
     (if algorithm = ''token_bucket''
        then Some (TokenBucketAlg (NewTokenBucket (Requests rule) (Burst rule)))
      else if algorithm = ''sliding_window''
        then Some (SlidingWindowAlg (NewSlidingWindow (Requests rule) (Window rule)))
      else if algorithm = ''fixed_window''
        then Some (FixedWindowAlg (NewFixedWindow (Requests rule) (Window rule)))
      else if algorithm = ''distributed''
        then (if redisClient
              then Some (DistributedAlg (NewDistributedRateLimit (Requests rule) (Window rule)))
              else None)
      else None)"

fun registerRules ::
  "string \<Rightarrow> string \<Rightarrow> bool \<Rightarrow> (string \<times> RateLimitRule) list \<Rightarrow>
     (string \<rightharpoonup> 'l Algorithm) \<Rightarrow> (string \<rightharpoonup> 'l Algorithm)" where
  "registerRules prefix algorithm redisClient [] algs = algs"
| "registerRules prefix algorithm redisClient ((ident, rule) # rules) algs =
     registerRules prefix algorithm redisClient rules
       (case scopedAlgorithm algorithm redisClient rule of
          Some a \<Rightarrow> algs(prefix @ ident \<mapsto> a)
        | None \<Rightarrow> algs)"

definition initializeAlgorithms :: "'l ratelimit_Manager \<Rightarrow> bool \<Rightarrow> 'l ratelimit_Manager" where
  "initializeAlgorithms m redisClient =
     (let cfg = rl_config m;
          algs0 = (rl_algorithms m)(''default'' \<mapsto> defaultAlgorithm cfg redisClient);
          algs1 = registerRules ''user:'' (rl_Algorithm cfg) redisClient (rl_PerUser cfg) algs0;
          algs2 = registerRules ''service:'' (rl_Algorithm cfg) redisClient (rl_PerService cfg) algs1
      in m\<lparr>rl_algorithms := algs2\<rparr>)"

definition ratelimit_NewManager :: "RateLimitConfig \<Rightarrow> bool \<Rightarrow> 'l ratelimit_Manager" where
  "ratelimit_NewManager cfg redisClient =
     (let manager = \<lparr>rl_algorithms = Map.empty, rl_config = cfg\<rparr>
      in if rl_Enabled cfg then initializeAlgorithms manager redisClient else manager)"

text \<open>
  \<open>CheckLimit\<close>: the algorithm registered under the key, else the one under
  \<open>"default"\<close>; the algorithm object is shared, so its new state is stored where it was
  found.
\<close>

definition CheckLimit ::
  "'l rate_package \<Rightarrow> 'l ratelimit_Manager \<Rightarrow> string \<Rightarrow> int \<Rightarrow> redis \<Rightarrow>
     decision \<times> 'l ratelimit_Manager \<times> redis" where
  "CheckLimit pkg m key now r =
     (if \<not> rl_Enabled (rl_config m) then ((True, None), m, r)
      else let slot = (case rl_algorithms m key of Some a \<Rightarrow> key | None \<Rightarrow> ''default'')
           in case rl_algorithms m slot of
                None \<Rightarrow> ((True, None), m, r)
              | Some algorithm \<Rightarrow>
                  (let (d, algorithm', r') = Algorithm_Allow pkg algorithm key now r
                   in (d, m\<lparr>rl_algorithms := (rl_algorithms m)(slot \<mapsto> algorithm')\<rparr>, r')))"

text \<open>
  The scoped entry points prefix the identifier with its namespace and call
  \<open>CheckLimit\<close>.
\<close>

definition CheckUserLimit ::
  "'l rate_package \<Rightarrow> 'l ratelimit_Manager \<Rightarrow> string \<Rightarrow> int \<Rightarrow> redis \<Rightarrow>
     decision \<times> 'l ratelimit_Manager \<times> redis" where
  "CheckUserLimit pkg m userID now r = CheckLimit pkg m (''user:'' @ userID) now r"

definition CheckServiceLimit ::
  "'l rate_package \<Rightarrow> 'l ratelimit_Manager \<Rightarrow> string \<Rightarrow> int \<Rightarrow> redis \<Rightarrow>
     decision \<times> 'l ratelimit_Manager \<times> redis" where
  "CheckServiceLimit pkg m serviceID now r = CheckLimit pkg m (''service:'' @ serviceID) now r"

definition CheckIPLimit ::
  "'l rate_package \<Rightarrow> 'l ratelimit_Manager \<Rightarrow> string \<Rightarrow> int \<Rightarrow> redis \<Rightarrow>
     decision \<times> 'l ratelimit_Manager \<times> redis" where
  "CheckIPLimit pkg m ip now r = CheckLimit pkg m (''ip:'' @ ip) now r"

definition CheckAPIKeyLimit ::
  "'l rate_package \<Rightarrow> 'l ratelimit_Manager \<Rightarrow> string \<Rightarrow> int \<Rightarrow> redis \<Rightarrow>
     decision \<times> 'l ratelimit_Manager \<times> redis" where
  "CheckAPIKeyLimit pkg m apiKey now r = CheckLimit pkg m (''apikey:'' @ apiKey) now r"

text \<open>\<open>UpdateConfig\<close> replaces the configuration, clears the algorithms and registers anew.\<close>

definition ratelimit_UpdateConfig ::
  "'l ratelimit_Manager \<Rightarrow> RateLimitConfig \<Rightarrow> bool \<Rightarrow> 'l ratelimit_Manager" where
  "ratelimit_UpdateConfig m cfg redisClient =
     (let m' = m\<lparr>rl_config := cfg, rl_algorithms := Map.empty\<rparr>
      in if rl_Enabled cfg then initializeAlgorithms m' redisClient else m')"

section \<open>The rate limit middleware\<close>

text \<open>
  Package \<open>middleware\<close>. Of the gin context the model keeps the value stored under the
  key \<open>"user"\<close> (absent, a \<open>*auth.Claims\<close>, or a value of another type), the client IP,
  the request headers and the response headers set so far.
\<close>

record Claims =
  UserID :: string
  Username :: string
  Email :: string
  Roles :: "string list"

datatype context_value = ClaimsValue Claims | OtherValue

record gin_Context =
  ctx_user :: "context_value option"
  ctx_ClientIP :: string
  ctx_request_headers :: "(string \<times> string) list"
  ctx_response_headers :: "string \<rightharpoonup> string"

datatype json = JString string | JInt int

record Response =
  resp_status :: nat
  resp_headers :: "string \<rightharpoonup> string"
  resp_body :: "(string \<times> json) list"

text \<open>A handler either calls \<open>c.Next()\<close> or writes a response and aborts the chain.\<close>

datatype handler_result = Next | Abort Response

definition rateLimitKey :: "gin_Context \<Rightarrow> string" where
  "rateLimitKey c =
     (let key = (case ctx_user c of
                   Some (ClaimsValue userClaims) \<Rightarrow> UserID userClaims
                 | Some OtherValue \<Rightarrow> ''''
                 | None \<Rightarrow> '''')
      in if key = '''' then ctx_ClientIP c else key)"

definition Middleware_RateLimit ::
  "'l rate_package \<Rightarrow> 'l ratelimit_Manager \<Rightarrow> gin_Context \<Rightarrow> int \<Rightarrow> redis \<Rightarrow>
     handler_result \<times> 'l ratelimit_Manager \<times> redis" where
  "Middleware_RateLimit pkg rateLimiter c now r =
     (let key = rateLimitKey c;
          ((allowed, err), rateLimiter', r') = CheckLimit pkg rateLimiter key now r
      in if err \<noteq> None
         then (Abort \<lparr>resp_status = 500, resp_headers = ctx_response_headers c,
                      resp_body = [(''error'', JString ''Rate limit check failed'')]\<rparr>,
               rateLimiter', r')
         else if \<not> allowed
         then (Abort \<lparr>resp_status = 429,
                      resp_headers = (ctx_response_headers c)
                        (''X-RateLimit-Limit'' \<mapsto> ''100'',
                         ''X-RateLimit-Remaining'' \<mapsto> ''0'',
                         ''Retry-After'' \<mapsto> ''60''),
                      resp_body = [(''error'', JString ''Rate limit exceeded''),
                                   (''retry_after'', JInt 60)]\<rparr>,
               rateLimiter', r')
         else (Next, rateLimiter', r'))"

section \<open>Runs of the sliding window limiter\<close>

text \<open>
  A sequence of \<open>Allow\<close> calls \<open>(key, now)\<close> on one limiter, with the decisions in call
  order; \<open>allowedAt key calls outs\<close> lists the timestamps of the calls for \<open>key\<close> that
  were allowed. \<open>sw_inv\<close> is the invariant of the limiter's state along such a run.
\<close>

fun SlidingWindow_calls ::
  "(string \<times> int) list \<Rightarrow> SlidingWindow \<Rightarrow> bool list \<times> SlidingWindow" where
  "SlidingWindow_calls [] sw = ([], sw)"
| "SlidingWindow_calls ((key, now) # calls) sw =
     (let ((allowed, err), sw1) = SlidingWindow_Allow sw key now;
          (rest, sw2) = SlidingWindow_calls calls sw1
      in (allowed # rest, sw2))"

definition allowedAt :: "string \<Rightarrow> (string \<times> int) list \<Rightarrow> bool list \<Rightarrow> int list" where
  "allowedAt key calls outs =
     map (\<lambda>((k, t), a). t) (filter (\<lambda>((k, t), a). a \<and> k = key) (zip calls outs))"

definition sw_inv :: "int \<Rightarrow> int \<Rightarrow> (string \<times> int) list \<Rightarrow> bool list \<Rightarrow> SlidingWindow \<Rightarrow> bool" where
  "sw_inv L W calls outs sw \<longleftrightarrow>
     length outs = length calls \<and> sw_limit sw = L \<and> sw_window sw = W \<and>
     (\<forall>k. sorted (allowedAt k calls outs) \<and>
          (case sw_windows sw k of
             None \<Rightarrow> allowedAt k calls outs = []
           | Some reqs \<Rightarrow>
               int (length reqs) \<le> L \<and>
               (\<exists>e\<in>set calls. reqs = filter (\<lambda>t. \<not> t < snd e - W) (allowedAt k calls outs))))"

section \<open>Scenarios\<close>

text \<open>
  Concrete inputs for the evaluations below. \<open>no_token_bucket\<close> stands for the rate
  package in runs that never consult a token bucket.
\<close>

definition no_token_bucket :: "unit rate_package" where
  "no_token_bucket = \<lparr>rate_NewLimiter = \<lambda>rps burst. (), rate_Allow = \<lambda>l now. (True, l)\<rparr>"

definition one_per_second :: RateLimitConfig where
  "one_per_second =
     \<lparr>rl_Enabled = True, rl_Algorithm = ''sliding_window'',
      rl_Default = \<lparr>Requests = 1, Window = 1000000000, Burst = 1\<rparr>,
      rl_PerUser = [], rl_PerService = []\<rparr>"

definition disabled_distributed :: RateLimitConfig where
  "disabled_distributed =
     \<lparr>rl_Enabled = False, rl_Algorithm = ''distributed'',
      rl_Default = \<lparr>Requests = 5, Window = 1000000000, Burst = 5\<rparr>,
      rl_PerUser = [], rl_PerService = []\<rparr>"

definition anonymous_request :: gin_Context where
  "anonymous_request =
     \<lparr>ctx_user = None, ctx_ClientIP = ''1.2.3.4'', ctx_request_headers = [],
      ctx_response_headers = Map.empty\<rparr>"

definition redis_absent :: redis where
  "redis_absent = \<lparr>redis_up = False, redis_zsets = Map.empty, redis_ttl = Map.empty\<rparr>"

definition after_first_request :: "unit ratelimit_Manager" where
  "after_first_request =
     fst (snd (Middleware_RateLimit no_token_bucket (ratelimit_NewManager one_per_second False)
                 anonymous_request 0 redis_absent))"

definition valid_service :: ServiceConfig where
  "valid_service =
     \<lparr>URLs = [''http://a''], LoadBalancer = ''round_robin'', Timeout = 30000000000,
      Retries = 3,
      sc_CircuitBreaker = \<lparr>cb_Enabled = True, FailureThreshold = 5,
                           RecoveryTimeout = 30000000000, HalfOpenRequests = 3\<rparr>\<rparr>"

definition valid_config :: Config where
  "valid_config =
     \<lparr>Server = \<lparr>Port = 8080, Host = ''0.0.0.0''\<rparr>,
      Auth = \<lparr>JWT = \<lparr>Secret = ''signing-secret''\<rparr>\<rparr>,
      RateLimit = \<lparr>rl_Enabled = True, rl_Algorithm = ''token_bucket'',
                   rl_Default = \<lparr>Requests = 100, Window = 60000000000, Burst = 10\<rparr>,
                   rl_PerUser = [], rl_PerService = []\<rparr>,
      Routing = \<lparr>Services = [(''u'', valid_service)]\<rparr>\<rparr>"

definition no_endpoint_config :: Config where
  "no_endpoint_config =
     valid_config\<lparr>Routing := \<lparr>Services = [(''u'', valid_service\<lparr>URLs := []\<rparr>)]\<rparr>\<rparr>"

definition zero_window_config :: Config where
  "zero_window_config =
     valid_config\<lparr>RateLimit := (RateLimit valid_config)
        \<lparr>rl_Default := \<lparr>Requests = 100, Window = 0, Burst = 10\<rparr>\<rparr>\<rparr>"

definition zero_user_limit_config :: Config where
  "zero_user_limit_config =
     valid_config\<lparr>RateLimit := (RateLimit valid_config)
        \<lparr>rl_PerUser := [(''alice'', \<lparr>Requests = 0, Window = 60000000000, Burst = 10\<rparr>)]\<rparr>\<rparr>"

definition disabled_zero_limit_config :: Config where
  "disabled_zero_limit_config =
     valid_config\<lparr>RateLimit := (RateLimit valid_config)
        \<lparr>rl_Enabled := False,
         rl_Default := \<lparr>Requests = 0, Window = 60000000000, Burst = 10\<rparr>\<rparr>\<rparr>"

definition zero_breaker_config :: Config where
  "zero_breaker_config =
     valid_config\<lparr>Routing := \<lparr>Services =
        [(''u'', valid_service\<lparr>sc_CircuitBreaker :=
             \<lparr>cb_Enabled = True, FailureThreshold = 0, RecoveryTimeout = 0,
              HalfOpenRequests = 3\<rparr>\<rparr>)]\<rparr>\<rparr>"

text \<open>
  \<open>token_refill\<close> is the rate package as its documentation describes it, for whole
  rates: a limiter starts with \<open>burst\<close> tokens, gains \<open>limit\<close> tokens per second up
  to \<open>burst\<close>, and \<open>Allow\<close> takes one token when a whole one is there. Time is in
  nanoseconds and tokens are counted in billionths, so that the refill is an integer.
  The tests of the repository expect this of it: a bucket of burst 5 passes five
  immediate requests and denies the sixth.
\<close>

record rate_Limiter =
  lim_limit :: int
  lim_burst :: int
  lim_tokens :: int
  lim_last :: int

definition token_refill :: "rate_Limiter rate_package" where
  "token_refill =
     \<lparr>rate_NewLimiter = \<lambda>rps burst.
        \<lparr>lim_limit = rps, lim_burst = burst, lim_tokens = burst * 1000000000, lim_last = 0\<rparr>,
      rate_Allow = \<lambda>l now.
        (let tokens = min (lim_burst l * 1000000000)
                          (lim_tokens l + (now - lim_last l) * lim_limit l)
         in if 1000000000 \<le> tokens
            then (True, l\<lparr>lim_tokens := tokens - 1000000000, lim_last := now\<rparr>)
            else (False, l\<lparr>lim_tokens := tokens, lim_last := now\<rparr>))\<rparr>"

definition distributed_without_client :: RateLimitConfig where
  "distributed_without_client =
     \<lparr>rl_Enabled = True, rl_Algorithm = ''distributed'',
      rl_Default = \<lparr>Requests = 5, Window = 1000000000, Burst = 1\<rparr>,
      rl_PerUser = [(''alice'', \<lparr>Requests = 5, Window = 1000000000, Burst = 1\<rparr>)],
      rl_PerService = []\<rparr>"

definition per_user_config :: RateLimitConfig where
  "per_user_config =
     \<lparr>rl_Enabled = True, rl_Algorithm = ''sliding_window'',
      rl_Default = \<lparr>Requests = 100, Window = 1000000000, Burst = 100\<rparr>,
      rl_PerUser = [(''alice'', \<lparr>Requests = 1, Window = 1000000000, Burst = 1\<rparr>)],
      rl_PerService = []\<rparr>"

definition alice_request :: gin_Context where
  "alice_request =
     \<lparr>ctx_user = Some (ClaimsValue \<lparr>UserID = ''alice'', Username = ''alice'',
                                     Email = ''alice@example.com'', Roles = [''user'']\<rparr>),
      ctx_ClientIP = ''10.0.0.1'',
      ctx_request_headers = [(''X-API-Key'', ''secret-key'')],
      ctx_response_headers = Map.empty\<rparr>"

definition api_key_request :: gin_Context where
  "api_key_request =
     \<lparr>ctx_user = None, ctx_ClientIP = ''10.0.0.2'',
      ctx_request_headers = [(''X-API-Key'', ''secret-key'')],
      ctx_response_headers = Map.empty\<rparr>"

section \<open>Properties\<close>

subsection \<open>Round robin\<close>

lemma rr_next_state:
  "rr_targets rr \<noteq> [] \<Longrightarrow>
   snd (RoundRobin_NextTarget rr) = rr\<lparr>rr_current := rr_current rr + 1\<rparr>"
  by (simp add: RoundRobin_NextTarget_def Let_def)

lemma rr_next_result:
  "rr_targets rr \<noteq> [] \<Longrightarrow>
   fst (RoundRobin_NextTarget rr) =
     Some (rr_targets rr ! (unat (rr_current rr + 1) mod length (rr_targets rr)))"
  by (simp add: RoundRobin_NextTarget_def Let_def)

lemma rr_calls_nth:
  "rr_targets rr \<noteq> [] \<Longrightarrow> k < n \<Longrightarrow>
   fst (RoundRobin_calls n rr) ! k =
     Some (rr_targets rr !
       (unat (rr_current rr + of_nat (Suc k)) mod length (rr_targets rr)))"
proof (induction n arbitrary: rr k)
  case 0
  then show ?case by simp
next
  case (Suc n)
  show ?case
  proof (cases k)
    case 0
    then show ?thesis using Suc.prems
      by (simp add: split_beta rr_next_result)
  next
    case (Suc j)
    let ?rr1 = "rr\<lparr>rr_current := rr_current rr + 1\<rparr>"
    have "fst (RoundRobin_calls n ?rr1) ! j =
          Some (rr_targets ?rr1 !
            (unat (rr_current ?rr1 + of_nat (Suc j)) mod length (rr_targets ?rr1)))"
      using Suc.IH[of ?rr1 j] Suc.prems \<open>k = Suc j\<close> by simp
    then show ?thesis using Suc.prems \<open>k = Suc j\<close>
      by (simp add: split_beta rr_next_state add.assoc)
  qed
qed

lemma rr_calls_fresh_nth:
  "ts \<noteq> [] \<Longrightarrow> k < n \<Longrightarrow> k + 1 < 2 ^ 64 \<Longrightarrow>
   fst (RoundRobin_calls n (NewRoundRobin ts)) ! k = Some (ts ! ((k + 1) mod length ts))"
  using rr_calls_nth[of "NewRoundRobin ts" k n]
  by (simp add: NewRoundRobin_def unat_of_nat take_bit_nat_eq_self del: of_nat_Suc)

lemma rr_calls_3:
  "fst (RoundRobin_calls 3 rr) =
     [fst (RoundRobin_NextTarget rr),
      fst (RoundRobin_NextTarget (snd (RoundRobin_NextTarget rr))),
      fst (RoundRobin_NextTarget
             (snd (RoundRobin_NextTarget (snd (RoundRobin_NextTarget rr)))))]"
  by (simp add: numeral_3_eq_3 split_beta)

lemma rr_two_endpoints:
  "fst (RoundRobin_calls 3 (NewRoundRobin [a, b])) = [Some b, Some a, Some b]"
  by (simp add: rr_calls_3 RoundRobin_NextTarget_def NewRoundRobin_def Let_def
      numeral_2_eq_2[symmetric])

text \<open>
  In general the \<open>(k+1)\<close>-th call on a freshly constructed balancer over a non-empty
  list returns the endpoint at index \<open>(k+1) mod N\<close>, as long as the 64-bit counter has
  not wrapped: the rotation is in list order, and it starts at index \<open>1 mod N\<close>.
\<close>

lemma rr_order:
  "fst (RoundRobin_calls 3 (NewRoundRobin [a, b])) = [Some b, Some a, Some b] \<and>
   (ts \<noteq> [] \<and> k < n \<and> k + 1 < 2 ^ 64 \<longrightarrow>
      fst (RoundRobin_calls n (NewRoundRobin ts)) ! k = Some (ts ! ((k + 1) mod length ts)))"
  using rr_two_endpoints rr_calls_fresh_nth by blast

text \<open>
  Claim C1 says that over the two-endpoint list \<open>[a, b]\<close> three sequential calls to
  \<open>NextTarget\<close> return \<open>a\<close>, then \<open>b\<close>, then \<open>a\<close>. The code uses the counter after
  incrementing it: evaluated on the endpoints of scenario S1 the three calls return
  \<open>b\<close>, then \<open>a\<close>, then \<open>b\<close>, so the first selection is the second endpoint of the
  configured list.
\<close>

theorem C1_first_selection_is_second_endpoint:
  "fst (RoundRobin_calls 3 (NewRoundRobin [''http://a'', ''http://b''])) =
     [Some ''http://b'', Some ''http://a'', Some ''http://b''] \<and>
   fst (RoundRobin_calls 3 (NewRoundRobin [''http://a'', ''http://b''])) \<noteq>
     [Some ''http://a'', Some ''http://b'', Some ''http://a'']"
  by (simp add: rr_two_endpoints)

subsection \<open>Weighted round robin\<close>

text \<open>Signed 64-bit additions and subtractions are exact while the result fits.\<close>

lemma sint_add_fits:
  fixes a b :: "64 word"
  assumes "- (2 ^ 63) \<le> sint a + sint b" "sint a + sint b < 2 ^ 63"
  shows "sint (a + b) = sint a + sint b"
  using assms by (simp add: sint_word_ariths signed_take_bit_int_eq_self)

lemma sint_sub_fits:
  fixes a b :: "64 word"
  assumes "- (2 ^ 63) \<le> sint a - sint b" "sint a - sint b < 2 ^ 63"
  shows "sint (a - b) = sint a - sint b"
  using assms by (simp add: sint_word_ariths signed_take_bit_int_eq_self)

lemma addWeights_eq:
  "addWeights a ts =
     (a + sum_list (map Weight ts),
      map (\<lambda>t. t\<lparr>CurrentWeight := CurrentWeight t + Weight t\<rparr>) ts)"
  by (induction ts arbitrary: a) (simp_all add: add.assoc)

lemma sint_sum_weights:
  "(\<forall>t\<in>set ts. 0 < weightOf t) \<Longrightarrow> sum_list (map weightOf ts) < 2 ^ 63 \<Longrightarrow>
   sint (sum_list (map Weight ts)) = sum_list (map weightOf ts)"
proof (induction ts)
  case Nil
  then show ?case by simp
next
  case (Cons t ts)
  have nonneg: "0 \<le> sum_list (map weightOf ts)"
    using Cons.prems(1) by (intro sum_list_nonneg) auto
  have pos: "0 < weightOf t" using Cons.prems(1) by simp
  have small: "weightOf t + sum_list (map weightOf ts) < 2 ^ 63" using Cons.prems(2) by simp
  then have "sum_list (map weightOf ts) < 2 ^ 63" using pos by linarith
  then have ih: "sint (sum_list (map Weight ts)) = sum_list (map weightOf ts)"
    using Cons.IH Cons.prems(1) by simp
  have "sint (Weight t + sum_list (map Weight ts)) =
        sint (Weight t) + sint (sum_list (map Weight ts))"
  proof (rule sint_add_fits)
    show "- (2 ^ 63) \<le> sint (Weight t) + sint (sum_list (map Weight ts))"
      using ih nonneg pos by (simp add: weightOf_def)
    show "sint (Weight t) + sint (sum_list (map Weight ts)) < 2 ^ 63"
      using ih small by (simp add: weightOf_def)
  qed
  then show ?case using ih by (simp add: weightOf_def[of t])
qed

lemma selectHighest_prefix:
  "n \<le> length ts \<Longrightarrow>
   (case foldl (\<lambda>selected i.
              case selected of
                None \<Rightarrow> Some i
              | Some s \<Rightarrow> if sint (CurrentWeight (ts ! i)) > sint (CurrentWeight (ts ! s))
                          then Some i else Some s) None [0..<n] of
      None \<Rightarrow> n = 0
    | Some s \<Rightarrow> s < n \<and> (\<forall>j<n. currentOf (ts ! j) \<le> currentOf (ts ! s)))"
proof (induction n)
  case 0
  then show ?case by simp
next
  case (Suc n)
  then show ?case
    by (auto split: option.splits simp: less_Suc_eq currentOf_def)
qed

lemma selectHighest_max:
  assumes "ts \<noteq> []"
  obtains s where "selectHighest ts = Some s" "s < length ts"
    "\<forall>j<length ts. currentOf (ts ! j) \<le> currentOf (ts ! s)"
  using selectHighest_prefix[of "length ts" ts] assms
  by (auto simp: selectHighest_def split: option.splits)

lemma select_unfold:
  assumes "wrr_targets wrr \<noteq> []"
  obtains s where
    "s < length (wrr_targets wrr)"
    "\<forall>j<length (wrr_targets wrr).
        currentOf (bumped (wrr_targets wrr) ! j) \<le> currentOf (bumped (wrr_targets wrr) ! s)"
    "WeightedRoundRobin_select wrr =
       (Some s, wrr\<lparr>wrr_targets :=
          (bumped (wrr_targets wrr))[s := (bumped (wrr_targets wrr) ! s)
             \<lparr>CurrentWeight := CurrentWeight (bumped (wrr_targets wrr) ! s)
                - sum_list (map Weight (wrr_targets wrr))\<rparr>]\<rparr>)"
proof -
  let ?b = "bumped (wrr_targets wrr)"
  have ne: "?b \<noteq> []" using assms by (simp add: bumped_def)
  obtain s where s: "selectHighest ?b = Some s" "s < length ?b"
    "\<forall>j<length ?b. currentOf (?b ! j) \<le> currentOf (?b ! s)"
    using selectHighest_max[OF ne] by blast
  have "WeightedRoundRobin_select wrr =
       (Some s, wrr\<lparr>wrr_targets :=
          ?b[s := (?b ! s)\<lparr>CurrentWeight := CurrentWeight (?b ! s)
                - sum_list (map Weight (wrr_targets wrr))\<rparr>]\<rparr>)"
    using assms s(1)
    by (simp add: WeightedRoundRobin_select_def addWeights_eq bumped_def)
  then show ?thesis using that s by (simp add: bumped_def)
qed

lemma totalWeight_sum:
  "totalWeight wrr = (\<Sum>j<length (wrr_targets wrr). weightOf (wrr_targets wrr ! j))"
  by (simp add: totalWeight_def sum_list_sum_nth atLeast0LessThan)

lemma totalWeight_pos:
  assumes "wrr_targets wrr \<noteq> []"
    and "\<forall>j<length (wrr_targets wrr). 0 < weightOf (wrr_targets wrr ! j)"
  shows "0 < totalWeight wrr"
proof -
  have "{..<length (wrr_targets wrr)} \<noteq> {}" using assms(1) by auto
  then have "0 < (\<Sum>j<length (wrr_targets wrr). weightOf (wrr_targets wrr ! j))"
    using assms(2) by (intro sum_pos) auto
  then show ?thesis by (simp add: totalWeight_sum)
qed

lemma weight_le_total:
  assumes "\<forall>j<length (wrr_targets wrr). 0 < weightOf (wrr_targets wrr ! j)"
    and j: "j < length (wrr_targets wrr)"
  shows "weightOf (wrr_targets wrr ! j) \<le> totalWeight wrr"
proof -
  let ?ts = "wrr_targets wrr"
  have "totalWeight wrr = weightOf (?ts ! j) + (\<Sum>i\<in>{..<length ?ts} - {j}. weightOf (?ts ! i))"
    using j by (simp add: totalWeight_sum sum.remove[of "{..<length ?ts}" j])
  moreover have "0 \<le> (\<Sum>i\<in>{..<length ?ts} - {j}. weightOf (?ts ! i))"
    using assms(1) by (intro sum_nonneg) (auto simp: less_imp_le)
  ultimately show ?thesis by simp
qed

text \<open>
  Along every run the current weights stay above minus the total weight \<open>T\<close> and at
  most \<open>(N - 1) * T\<close>, and the bumped weights at most \<open>N * T\<close>: while \<open>N * T < 2^63\<close>
  no addition or subtraction of \<open>NextTarget\<close> wraps.
\<close>

lemma wrr_ok_upper:
  assumes ok: "wrr_ok wrr" and j: "j < length (wrr_targets wrr)"
  shows "currentOf (wrr_targets wrr ! j)
           \<le> (int (length (wrr_targets wrr)) - 1) * totalWeight wrr"
proof -
  let ?ts = "wrr_targets wrr"
  let ?N = "length ?ts" and ?T = "totalWeight wrr"
  have "(\<Sum>i<?N. currentOf (?ts ! i)) = 0" using ok by (simp add: wrr_ok_def)
  then have "currentOf (?ts ! j) + (\<Sum>i\<in>{..<?N} - {j}. currentOf (?ts ! i)) = 0"
    using j by (simp add: sum.remove[of "{..<?N}" j])
  then have eq: "currentOf (?ts ! j) = (\<Sum>i\<in>{..<?N} - {j}. - currentOf (?ts ! i))"
    by (simp add: sum_negf)
  have "(\<Sum>i\<in>{..<?N} - {j}. - currentOf (?ts ! i)) \<le> of_nat (card ({..<?N} - {j})) * ?T"
  proof (rule sum_bounded_above)
    fix i assume "i \<in> {..<?N} - {j}"
    then have "- ?T < currentOf (?ts ! i)" using ok by (simp add: wrr_ok_def)
    then show "- currentOf (?ts ! i) \<le> ?T" by simp
  qed
  moreover have "card ({..<?N} - {j}) = ?N - 1" using j by simp
  moreover have "int (?N - 1) = int ?N - 1" using j by auto
  ultimately show ?thesis using eq by simp
qed

text \<open>The effect of one selection, index by index, on the integers the fields denote.\<close>

lemma select_spec:
  assumes ok: "wrr_ok wrr"
  obtains s wrr' where
    "WeightedRoundRobin_select wrr = (Some s, wrr')"
    "s < length (wrr_targets wrr)"
    "length (wrr_targets wrr') = length (wrr_targets wrr)"
    "wrr\<lparr>wrr_targets := wrr_targets wrr'\<rparr> = wrr'"
    "0 < currentOf (wrr_targets wrr ! s) + weightOf (wrr_targets wrr ! s)"
    "\<forall>j<length (wrr_targets wrr).
        wt_URL (wrr_targets wrr' ! j) = wt_URL (wrr_targets wrr ! j) \<and>
        Weight (wrr_targets wrr' ! j) = Weight (wrr_targets wrr ! j) \<and>
        weightOf (wrr_targets wrr' ! j) = weightOf (wrr_targets wrr ! j) \<and>
        currentOf (wrr_targets wrr' ! j) =
          currentOf (wrr_targets wrr ! j) + weightOf (wrr_targets wrr ! j)
            - (if j = s then totalWeight wrr else 0)"
proof -
  let ?ts = "wrr_targets wrr"
  let ?N = "length ?ts" and ?T = "totalWeight wrr"
  let ?W = "sum_list (map Weight ?ts)"
  have ne: "?ts \<noteq> []" using ok by (simp add: wrr_ok_def)
  have wpos: "\<forall>j<?N. 0 < weightOf (?ts ! j)" using ok by (simp add: wrr_ok_def)
  have Tpos: "0 < ?T" using ne wpos by (rule totalWeight_pos)
  have fits: "int ?N * ?T < 2 ^ 63" using ok by (simp add: wrr_ok_def fits_int64_def)
  have N1: "1 \<le> int ?N" using ne by (cases ?ts) simp_all
  have split: "int ?N * ?T = (int ?N - 1) * ?T + ?T" by (simp add: algebra_simps)
  have "0 \<le> int ?N - 1" using N1 by linarith
  then have rest: "0 \<le> (int ?N - 1) * ?T" using Tpos by (intro mult_nonneg_nonneg) simp_all
  have Tfits: "?T < 2 ^ 63" using fits split rest by linarith
  have sum0: "(\<Sum>j<?N. currentOf (?ts ! j)) = 0" using ok by (simp add: wrr_ok_def)
  have total: "sint ?W = ?T"
    unfolding totalWeight_def
  proof (rule sint_sum_weights)
    show "\<forall>t\<in>set ?ts. 0 < weightOf t" using wpos by (auto simp: in_set_conv_nth)
    show "sum_list (map weightOf ?ts) < 2 ^ 63" using Tfits by (simp add: totalWeight_def)
  qed
  have bump: "currentOf (bumped ?ts ! j) = currentOf (?ts ! j) + weightOf (?ts ! j)"
    if j: "j < ?N" for j
  proof -
    have lo: "- ?T < currentOf (?ts ! j)" using ok j by (simp add: wrr_ok_def)
    have hi: "currentOf (?ts ! j) \<le> (int ?N - 1) * ?T" using wrr_ok_upper[OF ok j] .
    have w: "0 < weightOf (?ts ! j)" "weightOf (?ts ! j) \<le> ?T"
      using wpos j weight_le_total[OF wpos j] by simp_all
    have "sint (CurrentWeight (?ts ! j) + Weight (?ts ! j)) =
          sint (CurrentWeight (?ts ! j)) + sint (Weight (?ts ! j))"
    proof (rule sint_add_fits)
      show "- (2 ^ 63) \<le> sint (CurrentWeight (?ts ! j)) + sint (Weight (?ts ! j))"
        using lo w Tfits by (simp add: currentOf_def weightOf_def)
      show "sint (CurrentWeight (?ts ! j)) + sint (Weight (?ts ! j)) < 2 ^ 63"
        using hi w fits split by (simp add: currentOf_def weightOf_def)
    qed
    then show ?thesis using j by (simp add: bumped_def currentOf_def weightOf_def)
  qed
  obtain s where s: "s < ?N"
    "\<forall>j<?N. currentOf (bumped ?ts ! j) \<le> currentOf (bumped ?ts ! s)"
    "WeightedRoundRobin_select wrr =
       (Some s, wrr\<lparr>wrr_targets :=
          (bumped ?ts)[s := (bumped ?ts ! s)
             \<lparr>CurrentWeight := CurrentWeight (bumped ?ts ! s) - ?W\<rparr>]\<rparr>)"
    using select_unfold[OF ne] by blast
  have mx: "\<forall>j<?N. currentOf (?ts ! j) + weightOf (?ts ! j)
                 \<le> currentOf (?ts ! s) + weightOf (?ts ! s)"
    using s(1,2) bump by simp
  have bumpsum: "(\<Sum>j<?N. currentOf (?ts ! j) + weightOf (?ts ! j)) = ?T"
    using sum0 by (simp add: sum.distrib totalWeight_sum[symmetric])
  have top: "0 < currentOf (?ts ! s) + weightOf (?ts ! s)"
  proof (rule ccontr)
    assume "\<not> ?thesis"
    then have "\<forall>j<?N. currentOf (?ts ! j) + weightOf (?ts ! j) \<le> 0"
      using mx by force
    then have "(\<Sum>j<?N. currentOf (?ts ! j) + weightOf (?ts ! j)) \<le> 0"
      by (intro sum_nonpos) auto
    then show False using bumpsum Tpos by simp
  qed
  have shi: "currentOf (?ts ! s) + weightOf (?ts ! s) \<le> int ?N * ?T"
    using wrr_ok_upper[OF ok s(1)] weight_le_total[OF wpos s(1)] split by linarith
  have sub: "sint (CurrentWeight (bumped ?ts ! s) - ?W) =
             currentOf (?ts ! s) + weightOf (?ts ! s) - ?T"
  proof -
    have "sint (CurrentWeight (bumped ?ts ! s) - ?W) =
          sint (CurrentWeight (bumped ?ts ! s)) - sint ?W"
    proof (rule sint_sub_fits)
      show "- (2 ^ 63) \<le> sint (CurrentWeight (bumped ?ts ! s)) - sint ?W"
        using bump[OF s(1)] top total Tfits by (simp add: currentOf_def)
      show "sint (CurrentWeight (bumped ?ts ! s)) - sint ?W < 2 ^ 63"
        using bump[OF s(1)] shi total fits Tpos by (simp add: currentOf_def)
    qed
    then show ?thesis using bump[OF s(1)] total by (simp add: currentOf_def)
  qed
  show ?thesis
  proof (rule that[OF s(3) s(1) _ _ top])
    show "\<forall>j<?N.
        wt_URL (wrr_targets (wrr\<lparr>wrr_targets :=
          (bumped ?ts)[s := (bumped ?ts ! s)
             \<lparr>CurrentWeight := CurrentWeight (bumped ?ts ! s) - ?W\<rparr>]\<rparr>) ! j) = wt_URL (?ts ! j) \<and>
        Weight (wrr_targets (wrr\<lparr>wrr_targets :=
          (bumped ?ts)[s := (bumped ?ts ! s)
             \<lparr>CurrentWeight := CurrentWeight (bumped ?ts ! s) - ?W\<rparr>]\<rparr>) ! j) = Weight (?ts ! j) \<and>
        weightOf (wrr_targets (wrr\<lparr>wrr_targets :=
          (bumped ?ts)[s := (bumped ?ts ! s)
             \<lparr>CurrentWeight := CurrentWeight (bumped ?ts ! s) - ?W\<rparr>]\<rparr>) ! j) = weightOf (?ts ! j) \<and>
        currentOf (wrr_targets (wrr\<lparr>wrr_targets :=
          (bumped ?ts)[s := (bumped ?ts ! s)
             \<lparr>CurrentWeight := CurrentWeight (bumped ?ts ! s) - ?W\<rparr>]\<rparr>) ! j) =
          currentOf (?ts ! j) + weightOf (?ts ! j) - (if j = s then ?T else 0)"
    proof (intro allI impI)
      fix j assume j: "j < ?N"
      have len: "length (bumped ?ts) = ?N" by (simp add: bumped_def)
      have b: "wt_URL (bumped ?ts ! j) = wt_URL (?ts ! j)"
              "Weight (bumped ?ts ! j) = Weight (?ts ! j)"
        using j by (simp_all add: bumped_def)
      show "wt_URL (wrr_targets (wrr\<lparr>wrr_targets :=
          (bumped ?ts)[s := (bumped ?ts ! s)
             \<lparr>CurrentWeight := CurrentWeight (bumped ?ts ! s) - ?W\<rparr>]\<rparr>) ! j) = wt_URL (?ts ! j) \<and>
        Weight (wrr_targets (wrr\<lparr>wrr_targets :=
          (bumped ?ts)[s := (bumped ?ts ! s)
             \<lparr>CurrentWeight := CurrentWeight (bumped ?ts ! s) - ?W\<rparr>]\<rparr>) ! j) = Weight (?ts ! j) \<and>
        weightOf (wrr_targets (wrr\<lparr>wrr_targets :=
          (bumped ?ts)[s := (bumped ?ts ! s)
             \<lparr>CurrentWeight := CurrentWeight (bumped ?ts ! s) - ?W\<rparr>]\<rparr>) ! j) = weightOf (?ts ! j) \<and>
        currentOf (wrr_targets (wrr\<lparr>wrr_targets :=
          (bumped ?ts)[s := (bumped ?ts ! s)
             \<lparr>CurrentWeight := CurrentWeight (bumped ?ts ! s) - ?W\<rparr>]\<rparr>) ! j) =
          currentOf (?ts ! j) + weightOf (?ts ! j) - (if j = s then ?T else 0)"
      proof (cases "j = s")
        case True
        then show ?thesis
          using j len b sub by (simp add: currentOf_def weightOf_def)
      next
        case False
        then show ?thesis
          using j len b bump[OF j] by (simp add: weightOf_def)
      qed
    qed
  qed (simp_all add: bumped_def)
qed

lemma select_keeps_ok:
  assumes ok: "wrr_ok wrr"
    and sel: "WeightedRoundRobin_select wrr = (r, wrr')"
  shows "wrr_ok wrr'" and "totalWeight wrr' = totalWeight wrr"
    and "length (wrr_targets wrr') = length (wrr_targets wrr)"
proof -
  let ?ts = "wrr_targets wrr" and ?ts' = "wrr_targets wrr'"
  let ?N = "length ?ts" and ?T = "totalWeight wrr"
  have ne: "?ts \<noteq> []" using ok by (simp add: wrr_ok_def)
  obtain s wrr2 where sp:
    "WeightedRoundRobin_select wrr = (Some s, wrr2)"
    "s < ?N"
    "length (wrr_targets wrr2) = ?N"
    "0 < currentOf (?ts ! s) + weightOf (?ts ! s)"
    "\<forall>j<?N.
        wt_URL (wrr_targets wrr2 ! j) = wt_URL (?ts ! j) \<and>
        Weight (wrr_targets wrr2 ! j) = Weight (?ts ! j) \<and>
        weightOf (wrr_targets wrr2 ! j) = weightOf (?ts ! j) \<and>
        currentOf (wrr_targets wrr2 ! j) =
          currentOf (?ts ! j) + weightOf (?ts ! j) - (if j = s then ?T else 0)"
    using select_spec[OF ok] by metis
  have eq: "wrr2 = wrr'" "r = Some s" using sp(1) sel by simp_all
  show len: "length ?ts' = ?N" using sp(3) eq by simp
  have w: "\<forall>j<?N. weightOf (?ts' ! j) = weightOf (?ts ! j)" using sp(5) eq by simp
  have c: "\<forall>j<?N. currentOf (?ts' ! j) =
          currentOf (?ts ! j) + weightOf (?ts ! j) - (if j = s then ?T else 0)"
    using sp(5) eq by simp
  show T: "totalWeight wrr' = ?T"
    using w len by (simp add: totalWeight_sum)
  have Tpos: "0 < ?T" using ok totalWeight_pos by (simp add: wrr_ok_def)
  have sum0: "(\<Sum>j<?N. currentOf (?ts ! j)) = 0" using ok by (simp add: wrr_ok_def)
  have "(\<Sum>j<?N. currentOf (?ts' ! j)) =
        (\<Sum>j<?N. currentOf (?ts ! j) + weightOf (?ts ! j) - (if j = s then ?T else 0))"
    using c by simp
  also have "\<dots> = (\<Sum>j<?N. currentOf (?ts ! j)) + (\<Sum>j<?N. weightOf (?ts ! j))
                    - (\<Sum>j<?N. if j = s then ?T else 0)"
    by (simp add: sum.distrib sum_subtractf)
  also have "\<dots> = 0 + ?T - ?T"
    using sp(2) sum0 by (simp add: totalWeight_sum[symmetric])
  finally have sum0': "(\<Sum>j<?N. currentOf (?ts' ! j)) = 0" by simp
  have top: "0 < currentOf (?ts ! s) + weightOf (?ts ! s)" by (rule sp(4))
  have low: "\<forall>j<?N. - ?T < currentOf (?ts' ! j)"
  proof (intro allI impI)
    fix j assume j: "j < ?N"
    have old: "- ?T < currentOf (?ts ! j)" "0 < weightOf (?ts ! j)"
      using ok j by (simp_all add: wrr_ok_def)
    show "- ?T < currentOf (?ts' ! j)"
      using c j old top by (cases "j = s") auto
  qed
  have fits: "fits_int64 wrr'"
    using ok T len by (simp add: wrr_ok_def fits_int64_def)
  show "wrr_ok wrr'"
    unfolding wrr_ok_def using ne len w sum0' low T fits ok
    by (auto simp: wrr_ok_def)
qed


lemma selections_spec:
  assumes "wrr_ok wrr" and "WeightedRoundRobin_selections n wrr = (sels, wrr')"
  shows "wrr_ok wrr' \<and> totalWeight wrr' = totalWeight wrr \<and>
         length (wrr_targets wrr') = length (wrr_targets wrr) \<and>
         wrr\<lparr>wrr_targets := wrr_targets wrr'\<rparr> = wrr' \<and>
         length sels = n \<and> set sels \<subseteq> Some ` {..<length (wrr_targets wrr)} \<and>
         (\<forall>j<length (wrr_targets wrr).
            wt_URL (wrr_targets wrr' ! j) = wt_URL (wrr_targets wrr ! j) \<and>
            Weight (wrr_targets wrr' ! j) = Weight (wrr_targets wrr ! j) \<and>
            weightOf (wrr_targets wrr' ! j) = weightOf (wrr_targets wrr ! j) \<and>
            currentOf (wrr_targets wrr' ! j) =
              currentOf (wrr_targets wrr ! j) + int n * weightOf (wrr_targets wrr ! j)
                - totalWeight wrr * int (count_list sels (Some j)))"
  using assms
proof (induction n arbitrary: wrr sels wrr')
  case 0
  then show ?case by simp
next
  case (Suc n)
  let ?ts = "wrr_targets wrr"
  let ?N = "length ?ts" and ?T = "totalWeight wrr"
  have ne: "?ts \<noteq> []" using Suc.prems(1) by (simp add: wrr_ok_def)
  obtain s wrr1 where sp:
    "WeightedRoundRobin_select wrr = (Some s, wrr1)"
    "s < ?N"
    "wrr\<lparr>wrr_targets := wrr_targets wrr1\<rparr> = wrr1"
    "\<forall>j<?N.
        wt_URL (wrr_targets wrr1 ! j) = wt_URL (?ts ! j) \<and>
        Weight (wrr_targets wrr1 ! j) = Weight (?ts ! j) \<and>
        weightOf (wrr_targets wrr1 ! j) = weightOf (?ts ! j) \<and>
        currentOf (wrr_targets wrr1 ! j) =
          currentOf (?ts ! j) + weightOf (?ts ! j) - (if j = s then ?T else 0)"
    using select_spec[OF Suc.prems(1)] by metis
  note k = select_keeps_ok[OF Suc.prems(1) sp(1)]
  obtain ss wrr2 where run: "WeightedRoundRobin_selections n wrr1 = (ss, wrr2)"
    by force
  have res: "sels = Some s # ss" "wrr' = wrr2"
    using Suc.prems(2) sp(1) run by simp_all
  note ih = Suc.IH[OF k(1) run]
  have a: "wrr_ok wrr'" "totalWeight wrr' = ?T" "length (wrr_targets wrr') = ?N"
       "length sels = Suc n"
    using ih k res by simp_all
  have w12: "wrr1\<lparr>wrr_targets := wrr_targets wrr2\<rparr> = wrr2" using ih by blast
  have "wrr\<lparr>wrr_targets := wrr_targets wrr2\<rparr> =
        (wrr\<lparr>wrr_targets := wrr_targets wrr1\<rparr>)\<lparr>wrr_targets := wrr_targets wrr2\<rparr>"
    by simp
  also have "\<dots> = wrr1\<lparr>wrr_targets := wrr_targets wrr2\<rparr>"
    by (simp only: sp(3))
  finally have "wrr\<lparr>wrr_targets := wrr_targets wrr2\<rparr> = wrr2"
    using w12 by simp
  then have a': "wrr\<lparr>wrr_targets := wrr_targets wrr'\<rparr> = wrr'" using res by simp
  have b: "set sels \<subseteq> Some ` {..<?N}"
    using ih k res sp(2) by auto
  have c: "\<forall>j<?N.
            wt_URL (wrr_targets wrr' ! j) = wt_URL (?ts ! j) \<and>
            Weight (wrr_targets wrr' ! j) = Weight (?ts ! j) \<and>
            weightOf (wrr_targets wrr' ! j) = weightOf (?ts ! j) \<and>
            currentOf (wrr_targets wrr' ! j) =
              currentOf (?ts ! j) + int (Suc n) * weightOf (?ts ! j)
                - ?T * int (count_list sels (Some j))"
  proof (intro allI impI)
    fix j assume j: "j < ?N"
    have 1: "wt_URL (wrr_targets wrr2 ! j) = wt_URL (wrr_targets wrr1 ! j)"
         "Weight (wrr_targets wrr2 ! j) = Weight (wrr_targets wrr1 ! j)"
         "weightOf (wrr_targets wrr2 ! j) = weightOf (wrr_targets wrr1 ! j)"
         "currentOf (wrr_targets wrr2 ! j) =
              currentOf (wrr_targets wrr1 ! j) + int n * weightOf (wrr_targets wrr1 ! j)
                - totalWeight wrr1 * int (count_list ss (Some j))"
      using ih j k(3) by simp_all
    have 2: "wt_URL (wrr_targets wrr1 ! j) = wt_URL (?ts ! j)"
        "Weight (wrr_targets wrr1 ! j) = Weight (?ts ! j)"
        "weightOf (wrr_targets wrr1 ! j) = weightOf (?ts ! j)"
        "currentOf (wrr_targets wrr1 ! j) =
          currentOf (?ts ! j) + weightOf (?ts ! j) - (if j = s then ?T else 0)"
      using sp(4) j by simp_all
    show "wt_URL (wrr_targets wrr' ! j) = wt_URL (?ts ! j) \<and>
            Weight (wrr_targets wrr' ! j) = Weight (?ts ! j) \<and>
            weightOf (wrr_targets wrr' ! j) = weightOf (?ts ! j) \<and>
            currentOf (wrr_targets wrr' ! j) =
              currentOf (?ts ! j) + int (Suc n) * weightOf (?ts ! j)
                - ?T * int (count_list sels (Some j))"
      using 1 2 res k(2) by (cases "j = s") (simp_all add: algebra_simps)
  qed
  show ?case using a a' b c by blast
qed


lemma count_selections_sum:
  "set sels \<subseteq> Some ` {..<N::nat} \<Longrightarrow> (\<Sum>j<N. count_list sels (Some j)) = length sels"
proof (induction sels)
  case Nil
  then show ?case by simp
next
  case (Cons x xs)
  then obtain s where s: "x = Some s" "s < N" by auto
  have "(\<Sum>j<N. count_list (x # xs) (Some j)) =
        (\<Sum>j<N. (if j = s then 1 else 0) + count_list xs (Some j))"
    using s by (intro sum.cong) auto
  also have "\<dots> = (\<Sum>j<N. if j = s then 1 else 0) + (\<Sum>j<N. count_list xs (Some j))"
    by (simp only: sum.distrib)
  also have "(\<Sum>j<N. if j = s then 1 else 0) = (1::nat)"
    using s by simp
  finally show ?case using Cons by simp
qed


lemma fresh_current:
  "wrr_fresh wrr \<Longrightarrow> j < length (wrr_targets wrr) \<Longrightarrow>
   currentOf (wrr_targets wrr ! j) = 0"
  by (simp add: wrr_fresh_def currentOf_def)

lemma fresh_ok: "wrr_fresh wrr \<Longrightarrow> wrr_ok wrr"
  using totalWeight_pos[of wrr] by (auto simp: wrr_fresh_def wrr_ok_def currentOf_def)

lemma selections_in_range:
  assumes "wrr_fresh wrr" and "j < length (wrr_targets wrr)"
  shows "- totalWeight wrr
           < currentOf (wrr_targets (snd (WeightedRoundRobin_selections n wrr)) ! j) \<and>
         currentOf (wrr_targets (snd (WeightedRoundRobin_selections n wrr)) ! j)
           \<le> (int (length (wrr_targets wrr)) - 1) * totalWeight wrr"
proof -
  obtain sels wrr' where run: "WeightedRoundRobin_selections n wrr = (sels, wrr')" by force
  note sp = selections_spec[OF fresh_ok[OF assms(1)] run]
  have ok': "wrr_ok wrr'" and T: "totalWeight wrr' = totalWeight wrr"
    and len: "length (wrr_targets wrr') = length (wrr_targets wrr)"
    using sp by simp_all
  have "- totalWeight wrr' < currentOf (wrr_targets wrr' ! j)"
    using ok' assms(2) len by (simp add: wrr_ok_def)
  moreover have "currentOf (wrr_targets wrr' ! j)
           \<le> (int (length (wrr_targets wrr')) - 1) * totalWeight wrr'"
    using wrr_ok_upper[OF ok'] assms(2) len by simp
  ultimately show ?thesis using run T len by simp
qed

lemma full_cycle:
  assumes fresh: "wrr_fresh wrr"
    and run: "WeightedRoundRobin_selections (nat (totalWeight wrr)) wrr = (sels, wrr')"
  shows "wrr' = wrr"
    and "\<forall>j<length (wrr_targets wrr). int (count_list sels (Some j)) = weightOf (wrr_targets wrr ! j)"
proof -
  let ?ts = "wrr_targets wrr" and ?ts' = "wrr_targets wrr'"
  let ?N = "length ?ts" and ?T = "totalWeight wrr"
  have ok: "wrr_ok wrr" using fresh by (rule fresh_ok)
  have Tpos: "0 < ?T" using fresh totalWeight_pos by (simp add: wrr_fresh_def)
  note sp = selections_spec[OF ok run]
  have ok': "wrr_ok wrr'" and len: "length ?ts' = ?N" and T': "totalWeight wrr' = ?T"
    and n: "length sels = nat ?T" and sub: "set sels \<subseteq> Some ` {..<?N}"
    using sp by simp_all
  have cw: "currentOf (?ts' ! j) = ?T * (weightOf (?ts ! j) - int (count_list sels (Some j)))"
    if "j < ?N" for j
  proof -
    have "currentOf (?ts' ! j) =
            currentOf (?ts ! j) + int (nat ?T) * weightOf (?ts ! j)
              - ?T * int (count_list sels (Some j))"
      using sp that by simp
    then show ?thesis using fresh_current[OF fresh that] Tpos by (simp add: algebra_simps)
  qed
  have le: "int (count_list sels (Some j)) \<le> weightOf (?ts ! j)" if "j < ?N" for j
  proof -
    have "- ?T < currentOf (?ts' ! j)"
      using ok' that len T' by (simp add: wrr_ok_def)
    then have "?T * (-1) < ?T * (weightOf (?ts ! j) - int (count_list sels (Some j)))"
      using cw[OF that] by simp
    then have "-1 < weightOf (?ts ! j) - int (count_list sels (Some j))"
      using Tpos by (simp only: mult_less_cancel_left_pos)
    then show ?thesis by simp
  qed
  have "(\<Sum>j<?N. weightOf (?ts ! j) - int (count_list sels (Some j))) =
        ?T - int (\<Sum>j<?N. count_list sels (Some j))"
    by (simp add: sum_subtractf totalWeight_sum)
  also have "\<dots> = 0"
    using count_selections_sum[OF sub] n Tpos by simp
  finally have "(\<Sum>j<?N. weightOf (?ts ! j) - int (count_list sels (Some j))) = 0" .
  moreover have "\<forall>j\<in>{..<?N}. 0 \<le> weightOf (?ts ! j) - int (count_list sels (Some j))"
    using le by simp
  ultimately have z: "\<forall>j\<in>{..<?N}. weightOf (?ts ! j) - int (count_list sels (Some j)) = 0"
    using sum_nonneg_eq_0_iff[of "{..<?N}" "\<lambda>j. weightOf (?ts ! j) - int (count_list sels (Some j))"]
    by blast
  show cnt: "\<forall>j<?N. int (count_list sels (Some j)) = weightOf (?ts ! j)"
    using z by simp
  have "?ts' = ?ts"
  proof (rule nth_equalityI)
    show "length ?ts' = length ?ts" by (rule len)
  next
    fix j assume "j < length ?ts'"
    then have j: "j < ?N" using len by simp
    have "currentOf (?ts' ! j) = 0" using cw[OF j] cnt j by simp
    then have "CurrentWeight (?ts' ! j) = 0" by (simp add: currentOf_def signed_eq_0_iff)
    moreover have "CurrentWeight (?ts ! j) = 0" using fresh j by (simp add: wrr_fresh_def)
    moreover have "wt_URL (?ts' ! j) = wt_URL (?ts ! j)" "Weight (?ts' ! j) = Weight (?ts ! j)"
      using sp j by simp_all
    ultimately show "?ts' ! j = ?ts ! j" by simp
  qed
  moreover have "wrr\<lparr>wrr_targets := ?ts'\<rparr> = wrr'" using sp by blast
  ultimately have "wrr\<lparr>wrr_targets := ?ts\<rparr> = wrr'" by (simp only:)
  then show "wrr' = wrr" by simp
qed


lemma selections_add:
  "WeightedRoundRobin_selections (m + n) wrr =
     (fst (WeightedRoundRobin_selections m wrr) @
        fst (WeightedRoundRobin_selections n (snd (WeightedRoundRobin_selections m wrr))),
      snd (WeightedRoundRobin_selections n (snd (WeightedRoundRobin_selections m wrr))))"
  by (induction m arbitrary: wrr) (simp_all add: split_beta)

lemma window_count:
  assumes fresh: "wrr_fresh wrr" and j: "j < length (wrr_targets wrr)"
  shows "int (count_list
           (take (nat (totalWeight wrr))
              (drop m (fst (WeightedRoundRobin_selections (m + nat (totalWeight wrr)) wrr))))
           (Some j)) = weightOf (wrr_targets wrr ! j)"
proof -
  let ?T = "totalWeight wrr" and ?n = "nat (totalWeight wrr)"
  obtain a w1 where r1: "WeightedRoundRobin_selections m wrr = (a, w1)" by force
  obtain b w2 where r2: "WeightedRoundRobin_selections ?n w1 = (b, w2)" by force
  obtain c w3 where r3: "WeightedRoundRobin_selections ?n wrr = (c, w3)" by force
  have ok: "wrr_ok wrr" using fresh by (rule fresh_ok)
  have Tpos: "0 < ?T" using fresh totalWeight_pos by (simp add: wrr_fresh_def)
  note s1 = selections_spec[OF ok r1]
  have ok1: "wrr_ok w1" and T1: "totalWeight w1 = ?T"
    and len1: "length (wrr_targets w1) = length (wrr_targets wrr)" and la: "length a = m"
    and W1: "weightOf (wrr_targets w1 ! j) = weightOf (wrr_targets wrr ! j)"
    using s1 j by simp_all
  have r2': "WeightedRoundRobin_selections (nat (totalWeight w1)) w1 = (b, w2)"
    using r2 T1 by simp
  note s2 = selections_spec[OF ok1 r2']
  have lb: "length b = ?n" using s2 T1 by simp
  have "w3 = wrr" using full_cycle(1)[OF fresh r3] .
  then have "snd (WeightedRoundRobin_selections (?n + m) wrr) = w1"
    using r1 r3 by (simp add: selections_add)
  moreover have "snd (WeightedRoundRobin_selections (m + ?n) wrr) = w2"
    using r1 r2 by (simp add: selections_add)
  ultimately have same: "w2 = w1" by (simp add: add.commute)
  have "currentOf (wrr_targets w2 ! j) =
          currentOf (wrr_targets w1 ! j)
            + int (nat (totalWeight w1)) * weightOf (wrr_targets w1 ! j)
            - totalWeight w1 * int (count_list b (Some j))"
    using s2 j len1 by auto
  then have "?T * (weightOf (wrr_targets wrr ! j) - int (count_list b (Some j))) = 0"
    using same W1 T1 Tpos by (simp add: algebra_simps)
  then have "int (count_list b (Some j)) = weightOf (wrr_targets wrr ! j)"
    using Tpos by simp
  moreover have "take ?n (drop m (fst (WeightedRoundRobin_selections (m + ?n) wrr))) = b"
    using r1 r2 la lb by (simp add: selections_add)
  ultimately show ?thesis by simp
qed

lemma new_weight:
  "j < length targets \<Longrightarrow>
   Weight (wrr_targets (NewWeightedRoundRobin targets weights) ! j) =
     (if j < length weights \<and> 0 < sint (weights ! j) then weights ! j else 1)"
  by (simp add: NewWeightedRoundRobin_def)

lemma new_fresh:
  assumes "targets \<noteq> []"
    and "int (length targets) * totalWeight (NewWeightedRoundRobin targets weights) < 2 ^ 63"
  shows "wrr_fresh (NewWeightedRoundRobin targets weights)"
proof -
  have len: "length (wrr_targets (NewWeightedRoundRobin targets weights)) = length targets"
    by (simp add: NewWeightedRoundRobin_def)
  have "0 < weightOf (wrr_targets (NewWeightedRoundRobin targets weights) ! j) \<and>
        CurrentWeight (wrr_targets (NewWeightedRoundRobin targets weights) ! j) = 0"
    if "j < length targets" for j
    using that by (simp add: NewWeightedRoundRobin_def weightOf_def)
  moreover have "wrr_targets (NewWeightedRoundRobin targets weights) \<noteq> []"
    using assms(1) by (simp add: NewWeightedRoundRobin_def)
  ultimately show ?thesis
    using assms len by (simp add: wrr_fresh_def fits_int64_def)
qed


lemma calls_selections:
  "wrr_ok wrr \<Longrightarrow>
   WeightedRoundRobin_calls n wrr =
     (map (map_option (\<lambda>s. wt_URL (wrr_targets wrr ! s)))
          (fst (WeightedRoundRobin_selections n wrr)),
      snd (WeightedRoundRobin_selections n wrr))"
proof (induction n arbitrary: wrr)
  case 0
  then show ?case by simp
next
  case (Suc n)
  obtain r wrr1 where sel: "WeightedRoundRobin_select wrr = (r, wrr1)" by force
  obtain ss wrr2 where run: "WeightedRoundRobin_selections n wrr1 = (ss, wrr2)" by force
  note k = select_keeps_ok[OF Suc.prems sel]
  have ne: "wrr_targets wrr \<noteq> []" using Suc.prems by (simp add: wrr_ok_def)
  have url: "\<forall>j<length (wrr_targets wrr).
               wt_URL (wrr_targets wrr1 ! j) = wt_URL (wrr_targets wrr ! j)"
    using select_spec[OF Suc.prems] sel by (metis prod.inject)
  have sub: "set ss \<subseteq> Some ` {..<length (wrr_targets wrr)}"
    using selections_spec[OF k(1) run] k(3) by simp
  have "map (map_option (\<lambda>s. wt_URL (wrr_targets wrr1 ! s))) ss =
        map (map_option (\<lambda>s. wt_URL (wrr_targets wrr ! s))) ss"
  proof (rule map_cong[OF refl])
    fix x assume "x \<in> set ss"
    then obtain s where "x = Some s" "s < length (wrr_targets wrr)" using sub by auto
    then show "map_option (\<lambda>s. wt_URL (wrr_targets wrr1 ! s)) x =
               map_option (\<lambda>s. wt_URL (wrr_targets wrr ! s)) x"
      using url by simp
  qed
  then show ?case
    using Suc.IH[OF k(1)] sel run
    by (simp add: WeightedRoundRobin_NextTarget_def)
qed

lemma count_list_map_inj:
  "inj_on f (insert y (set xs)) \<Longrightarrow> count_list (map f xs) (f y) = count_list xs y"
  by (induction xs) (auto simp: inj_on_def)

lemma window_count_urls:
  assumes fresh: "wrr_fresh wrr" and j: "j < length (wrr_targets wrr)"
    and d: "distinct (map wt_URL (wrr_targets wrr))"
  shows "int (count_list
           (take (nat (totalWeight wrr))
              (drop m (fst (WeightedRoundRobin_calls (m + nat (totalWeight wrr)) wrr))))
           (Some (wt_URL (wrr_targets wrr ! j)))) = weightOf (wrr_targets wrr ! j)"
proof -
  let ?n = "nat (totalWeight wrr)"
  let ?g = "map_option (\<lambda>s. wt_URL (wrr_targets wrr ! s))"
  let ?w = "take ?n (drop m (fst (WeightedRoundRobin_selections (m + ?n) wrr)))"
  obtain a w1 where r: "WeightedRoundRobin_selections (m + ?n) wrr = (a, w1)" by force
  have sub: "set a \<subseteq> Some ` {..<length (wrr_targets wrr)}"
    using selections_spec[OF fresh_ok[OF fresh] r] by simp
  have "set ?w \<subseteq> set a" using r by (auto dest: in_set_takeD in_set_dropD)
  then have sub': "insert (Some j) (set ?w) \<subseteq> Some ` {..<length (wrr_targets wrr)}"
    using sub j by auto
  have "inj_on ?g (Some ` {..<length (wrr_targets wrr)})"
    using d by (auto simp: inj_on_def distinct_conv_nth)
  then have inj: "inj_on ?g (insert (Some j) (set ?w))"
    using sub' by (rule inj_on_subset)
  have "take ?n (drop m (fst (WeightedRoundRobin_calls (m + ?n) wrr))) = map ?g ?w"
    by (simp add: calls_selections[OF fresh_ok[OF fresh]] take_map drop_map)
  moreover have "count_list (map ?g ?w) (?g (Some j)) = count_list ?w (Some j)"
    using inj by (rule count_list_map_inj)
  ultimately show ?thesis
    using window_count[OF fresh j, of m] by simp
qed

lemma new_urls:
  "map wt_URL (wrr_targets (NewWeightedRoundRobin targets weights)) = targets"
  by (simp add: NewWeightedRoundRobin_def map_nth comp_def)


text \<open>
  With the default equal weights (the \<open>weighted_round_robin\<close> policy of the proxy passes
  nil weights) the rotation starts at the first endpoint.
\<close>

lemma wrr_equal_weights_order:
  "fst (WeightedRoundRobin_calls 3 (NewWeightedRoundRobin [''http://a'', ''http://b''] [])) =
     [Some ''http://a'', Some ''http://b'', Some ''http://a'']"
  by code_simp

text \<open>Repeating a run that returns to its starting state.\<close>

lemma selections_period:
  assumes "WeightedRoundRobin_selections p wrr = (xs, wrr)"
  shows "WeightedRoundRobin_selections (q * p) wrr = (concat (replicate q xs), wrr)"
proof (induction q)
  case 0
  then show ?case by simp
next
  case (Suc q)
  have "WeightedRoundRobin_selections (p + q * p) wrr =
          (xs @ concat (replicate q xs), wrr)"
    using assms Suc by (simp add: selections_add)
  then show ?case by simp
qed

lemma count_list_concat_replicate:
  "count_list (concat (replicate q xs)) x = q * count_list xs x"
  by (induction q) simp_all

lemma large_weights_period:
  "WeightedRoundRobin_selections 6
     (NewWeightedRoundRobin [''a'', ''b''] [5764607523034234880, 2305843009213693952]) =
     ([Some 0, Some 1, Some 1, Some 0, Some 1, Some 1],
      NewWeightedRoundRobin [''a'', ''b''] [5764607523034234880, 2305843009213693952])"
  by code_simp

lemma large_weights_prefix:
  "fst (WeightedRoundRobin_selections 4
     (NewWeightedRoundRobin [''a'', ''b''] [5764607523034234880, 2305843009213693952])) =
     [Some 0, Some 1, Some 1, Some 0]"
  by code_simp

lemma large_weights_total:
  "totalWeight (NewWeightedRoundRobin [''a'', ''b''] [5764607523034234880, 2305843009213693952])
     = 8070450532247928832"
  by code_simp

lemma large_weights_run:
  "fst (WeightedRoundRobin_selections (q * 6 + 4)
     (NewWeightedRoundRobin [''a'', ''b''] [5764607523034234880, 2305843009213693952])) =
   concat (replicate q [Some 0, Some 1, Some 1, Some 0, Some 1, Some 1]) @
     [Some 0, Some 1, Some 1, Some 0]"
  using selections_period[OF large_weights_period, of q] large_weights_prefix
  by (simp add: selections_add)

text \<open>
  Claim C6, as stated, has no bound on the weights. With the positive weights
  \<open>5 * 2^60\<close> and \<open>2 * 2^60\<close>, whose sum \<open>7 * 2^60\<close> is below \<open>2^63\<close>, the
  current weights wrap: the selections are \<open>0, 1, 1, 0, 1, 1\<close> over and over, and
  the first \<open>7 * 2^60\<close> selections contain endpoint \<open>0\<close> only
  \<open>2690150177415976278\<close> times, not \<open>5 * 2^60 = 5764607523034234880\<close> times.
\<close>

theorem C6_large_weights_counterexample:
  "weightOf (wrr_targets
      (NewWeightedRoundRobin [''a'', ''b''] [5764607523034234880, 2305843009213693952]) ! 0)
     = 5764607523034234880 \<and>
   totalWeight (NewWeightedRoundRobin [''a'', ''b''] [5764607523034234880, 2305843009213693952])
     = 8070450532247928832 \<and>
   take 6 (fst (WeightedRoundRobin_selections 8070450532247928832
      (NewWeightedRoundRobin [''a'', ''b''] [5764607523034234880, 2305843009213693952])))
     = [Some 0, Some 1, Some 1, Some 0, Some 1, Some 1] \<and>
   count_list (fst (WeightedRoundRobin_selections 8070450532247928832
      (NewWeightedRoundRobin [''a'', ''b''] [5764607523034234880, 2305843009213693952])))
      (Some 0) = 2690150177415976278"
proof -
  let ?wrr = "NewWeightedRoundRobin [''a'', ''b''] [5764607523034234880, 2305843009213693952]"
  let ?p = "[Some (0::nat), Some 1, Some 1, Some 0, Some 1, Some 1]"
  have n: "(8070450532247928832::nat) = 1345075088707988138 * 6 + 4" by simp
  have run: "fst (WeightedRoundRobin_selections 8070450532247928832 ?wrr) =
             concat (replicate 1345075088707988138 ?p) @ [Some 0, Some 1, Some 1, Some 0]"
    by (simp only: n large_weights_run)
  have w: "weightOf (wrr_targets ?wrr ! 0) = 5764607523034234880" by code_simp
  have q: "(1345075088707988138::nat) = Suc 1345075088707988137" by simp
  have "take 6 (concat (replicate 1345075088707988138 ?p) @ [Some 0, Some 1, Some 1, Some 0]) = ?p"
    by (simp only: q replicate_Suc concat.simps) simp
  then have t: "take 6 (fst (WeightedRoundRobin_selections 8070450532247928832 ?wrr)) = ?p"
    by (simp only: run)
  have "count_list (concat (replicate 1345075088707988138 ?p) @ [Some 0, Some 1, Some 1, Some 0])
          (Some 0) = 1345075088707988138 * 2 + 2"
    by (simp only: count_list_append count_list_concat_replicate count_list.simps) simp
  then have c: "count_list (fst (WeightedRoundRobin_selections 8070450532247928832 ?wrr))
          (Some 0) = 2690150177415976278"
    by (simp only: run)
  show ?thesis using w large_weights_total t c by (intro conjI)
qed

text \<open>
  Claim C6: for the weighted round-robin balancer over endpoints with positive weights,
  every run of sum-of-weights consecutive \<open>NextTarget\<close> selections contains endpoint
  \<open>j\<close> exactly \<open>w\<^sub>j\<close> times, provided the number of endpoints times the sum of the
  weights is below \<open>2^63\<close>. The run is the window of \<open>T\<close> selections that starts
  after any number \<open>m\<close> of earlier selections on the balancer built by
  \<open>NewWeightedRoundRobin\<close>; \<open>T\<close> is the total weight. The count is stated for the
  selected index and, when the endpoint URLs are distinct, for the returned URL. The
  weight of endpoint \<open>j\<close> is the configured one when it is positive and 1 otherwise.
\<close>

theorem C6_weighted_round_robin_window:
  "targets \<noteq> [] \<and> j < length targets \<and>
   int (length targets) * totalWeight (NewWeightedRoundRobin targets weights) < 2 ^ 63 \<longrightarrow>
   (let wrr = NewWeightedRoundRobin targets weights;
        T = nat (totalWeight wrr)
    in int (count_list (take T (drop m (fst (WeightedRoundRobin_selections (m + T) wrr))))
              (Some j)) = weightOf (wrr_targets wrr ! j) \<and>
       (distinct targets \<longrightarrow>
          int (count_list (take T (drop m (fst (WeightedRoundRobin_calls (m + T) wrr))))
                (Some (targets ! j))) = weightOf (wrr_targets wrr ! j)) \<and>
       Weight (wrr_targets wrr ! j) =
         (if j < length weights \<and> 0 < sint (weights ! j) then weights ! j else 1))"
proof (intro impI)
  assume a: "targets \<noteq> [] \<and> j < length targets \<and>
   int (length targets) * totalWeight (NewWeightedRoundRobin targets weights) < 2 ^ 63"
  let ?wrr = "NewWeightedRoundRobin targets weights"
  have f: "wrr_fresh ?wrr" using a new_fresh by blast
  have j: "j < length (wrr_targets ?wrr)" using a by (simp add: NewWeightedRoundRobin_def)
  have u: "wt_URL (wrr_targets ?wrr ! j) = targets ! j"
    using a by (simp add: NewWeightedRoundRobin_def)
  have 1: "int (count_list (take (nat (totalWeight ?wrr))
             (drop m (fst (WeightedRoundRobin_selections (m + nat (totalWeight ?wrr)) ?wrr))))
              (Some j)) = weightOf (wrr_targets ?wrr ! j)"
    using window_count[OF f j, of m] .
  have 2: "distinct targets \<longrightarrow>
          int (count_list (take (nat (totalWeight ?wrr))
             (drop m (fst (WeightedRoundRobin_calls (m + nat (totalWeight ?wrr)) ?wrr))))
                (Some (targets ! j))) = weightOf (wrr_targets ?wrr ! j)"
    using window_count_urls[OF f j, of m] u by (simp add: new_urls)
  have 3: "Weight (wrr_targets ?wrr ! j) =
         (if j < length weights \<and> 0 < sint (weights ! j) then weights ! j else 1)"
    using new_weight[of j targets weights] a by blast
  show "let wrr = NewWeightedRoundRobin targets weights;
        T = nat (totalWeight wrr)
    in int (count_list (take T (drop m (fst (WeightedRoundRobin_selections (m + T) wrr))))
              (Some j)) = weightOf (wrr_targets wrr ! j) \<and>
       (distinct targets \<longrightarrow>
          int (count_list (take T (drop m (fst (WeightedRoundRobin_calls (m + T) wrr))))
                (Some (targets ! j))) = weightOf (wrr_targets wrr ! j)) \<and>
       Weight (wrr_targets wrr ! j) =
         (if j < length weights \<and> 0 < sint (weights ! j) then weights ! j else 1)"
    unfolding Let_def using 1 2 3 by blast
qed

theorem C6_weighted_round_robin_window_witness:
  "[''a'', ''b'', ''c''] \<noteq> [] \<and> (0::nat) < length [''a'', ''b'', ''c''] \<and>
   int (length [''a'', ''b'', ''c'']) *
     totalWeight (NewWeightedRoundRobin [''a'', ''b'', ''c''] [5, 1, 1]) < 2 ^ 63 \<and>
   distinct [''a'', ''b'', ''c''] \<and>
   int (count_list
          (take 7 (drop 3 (fst (WeightedRoundRobin_selections 10
             (NewWeightedRoundRobin [''a'', ''b'', ''c''] [5, 1, 1])))))
          (Some 0)) = 5 \<and>
   int (count_list
          (take 7 (drop 3 (fst (WeightedRoundRobin_calls 10
             (NewWeightedRoundRobin [''a'', ''b'', ''c''] [5, 1, 1])))))
          (Some ''a'')) = 5"
proof -
  have T: "totalWeight (NewWeightedRoundRobin [''a'', ''b'', ''c''] [5, 1, 1]) = 7"
    by code_simp
  have W: "weightOf (wrr_targets (NewWeightedRoundRobin [''a'', ''b'', ''c''] [5, 1, 1]) ! 0) = 5"
    by code_simp
  show ?thesis
  using C6_weighted_round_robin_window[of "[''a'', ''b'', ''c'']" 0 "[5, 1, 1]" 3]
  unfolding Let_def T W
  by simp
qed

subsection \<open>Least connections\<close>

lemma selectLeast_prefix:
  "n \<le> length ts \<Longrightarrow>
   (case foldl (\<lambda>selected i.
              if \<not> Healthy (ts ! i) then selected
              else case selected of
                     None \<Rightarrow> Some i
                   | Some s \<Rightarrow>
                       if sint (Connections (ts ! i)) < sint (Connections (ts ! s)) then Some i
                       else Some s) None [0..<n] of
      None \<Rightarrow> (\<forall>j<n. \<not> Healthy (ts ! j))
    | Some s \<Rightarrow> s < n \<and> Healthy (ts ! s) \<and>
        (\<forall>j<n. Healthy (ts ! j) \<longrightarrow> sint (Connections (ts ! s)) \<le> sint (Connections (ts ! j))))"
proof (induction n)
  case 0
  then show ?case by simp
next
  case (Suc n)
  then show ?case
    by (auto split: option.splits simp: less_Suc_eq)
qed

lemma selectLeast_Some:
  assumes "selectLeast ts = Some s"
  shows "s < length ts" "Healthy (ts ! s)"
    "\<forall>j<length ts. Healthy (ts ! j) \<longrightarrow> sint (Connections (ts ! s)) \<le> sint (Connections (ts ! j))"
  using selectLeast_prefix[of "length ts" ts] assms
  by (auto simp: selectLeast_def)

lemma selectLeast_None:
  assumes "selectLeast ts = None"
  shows "\<forall>j<length ts. \<not> Healthy (ts ! j)"
  using selectLeast_prefix[of "length ts" ts] assms
  by (auto simp: selectLeast_def)


lemma setHealthy_urls: "map ct_URL (setHealthy v h ts) = map ct_URL ts"
  by (induction ts) simp_all

lemma setHealthy_connections_of:
  "connections_of u (setHealthy v h ts) = connections_of u ts"
  by (induction ts) (simp_all add: connections_of_def)

lemma absent_all_unhealthy: "u \<notin> set (map ct_URL ts) \<Longrightarrow> all_unhealthy u ts"
  by (induction ts) (auto simp: all_unhealthy_def)

lemma setHealthy_distinct_all:
  "distinct (map ct_URL ts) \<Longrightarrow> all_unhealthy u (setHealthy u False ts)"
proof (induction ts)
  case Nil
  then show ?case by (simp add: all_unhealthy_def)
next
  case (Cons a ts)
  show ?case
  proof (cases "ct_URL a = u")
    case True
    then have "u \<notin> set (map ct_URL ts)" using Cons.prems by auto
    then have "all_unhealthy u ts" by (rule absent_all_unhealthy)
    then show ?thesis using True by (simp add: all_unhealthy_def)
  next
    case False
    then show ?thesis using Cons by (simp add: all_unhealthy_def)
  qed
qed

lemma setHealthy_keeps_unhealthy:
  "all_unhealthy u ts \<Longrightarrow> h = False \<or> v \<noteq> u \<Longrightarrow> all_unhealthy u (setHealthy v h ts)"
  by (induction ts) (auto simp: all_unhealthy_def)

lemma findTarget_Some:
  "findTarget u ts = Some t \<Longrightarrow> t \<in> set ts \<and> ct_URL t = u"
  by (induction ts) (auto split: if_splits)

lemma findTarget_None: "findTarget u ts = None \<longleftrightarrow> u \<notin> set (map ct_URL ts)"
  by (induction ts) auto

lemma findTarget_setHealthy:
  "findTarget u (setHealthy u h ts) = map_option (\<lambda>t. t\<lparr>Healthy := h\<rparr>) (findTarget u ts)"
  by (induction ts) simp_all

lemma select_unhealthy:
  assumes q: "all_unhealthy u (lc_targets lc)"
  shows "fst (LeastConnections_NextTarget lc) \<noteq> Some u \<and>
         all_unhealthy u (lc_targets (snd (LeastConnections_NextTarget lc))) \<and>
         connections_of u (lc_targets (snd (LeastConnections_NextTarget lc))) =
           connections_of u (lc_targets lc) \<and>
         map ct_URL (lc_targets (snd (LeastConnections_NextTarget lc))) =
           map ct_URL (lc_targets lc)"
proof (cases "selectLeast (lc_targets lc)")
  case None
  then show ?thesis
    using q by (simp add: LeastConnections_NextTarget_def LeastConnections_select_def
        all_unhealthy_def)
next
  case (Some s)
  let ?ts = "lc_targets lc"
  note sl = selectLeast_Some[OF Some]
  have ne: "?ts \<noteq> []" using sl(1) by auto
  have "?ts ! s \<in> set ?ts" using sl(1) by simp
  then have nu: "ct_URL (?ts ! s) \<noteq> u"
    using q sl(2) by (auto simp: all_unhealthy_def list_all_iff)
  let ?t' = "(?ts ! s)\<lparr>Connections := Connections (?ts ! s) + 1\<rparr>"
  have st: "lc_targets (snd (LeastConnections_NextTarget lc)) = ?ts[s := ?t']"
    and r: "fst (LeastConnections_NextTarget lc) = Some (ct_URL (?ts ! s))"
    using Some ne by (simp_all add: LeastConnections_NextTarget_def LeastConnections_select_def)
  have upd: "?ts[s := ?t'] = take s ?ts @ ?t' # drop (Suc s) ?ts"
    using sl(1) by (simp add: upd_conv_take_nth_drop)
  have old: "take s ?ts @ (?ts ! s) # drop (Suc s) ?ts = ?ts"
    using sl(1) by (simp add: id_take_nth_drop[symmetric])
  have 1: "fst (LeastConnections_NextTarget lc) \<noteq> Some u" using r nu by simp
  have "all_unhealthy u (take s ?ts @ (?ts ! s) # drop (Suc s) ?ts)" using q old by simp
  then have "all_unhealthy u (take s ?ts @ ?t' # drop (Suc s) ?ts)"
    using nu by (simp add: all_unhealthy_def)
  then have 2: "all_unhealthy u (lc_targets (snd (LeastConnections_NextTarget lc)))"
    using st upd by simp
  have "connections_of u (take s ?ts @ ?t' # drop (Suc s) ?ts) =
        connections_of u (take s ?ts @ (?ts ! s) # drop (Suc s) ?ts)"
    using nu by (simp add: connections_of_def)
  then have 3: "connections_of u (lc_targets (snd (LeastConnections_NextTarget lc))) =
       connections_of u ?ts"
    using st upd old by simp
  have "map ct_URL (take s ?ts @ ?t' # drop (Suc s) ?ts) =
        map ct_URL (take s ?ts @ (?ts ! s) # drop (Suc s) ?ts)"
    by simp
  then have 4: "map ct_URL (lc_targets (snd (LeastConnections_NextTarget lc))) = map ct_URL ?ts"
    using st upd old by simp
  show ?thesis using 1 2 3 4 by blast
qed

lemma run_unhealthy:
  assumes "all_unhealthy u (lc_targets lc)" and "CallMarkHealthy u \<notin> set calls"
  shows "Some u \<notin> set (fst (LeastConnections_run calls lc)) \<and>
         all_unhealthy u (lc_targets (snd (LeastConnections_run calls lc))) \<and>
         connections_of u (lc_targets (snd (LeastConnections_run calls lc))) =
           connections_of u (lc_targets lc) \<and>
         map ct_URL (lc_targets (snd (LeastConnections_run calls lc))) = map ct_URL (lc_targets lc)"
  using assms
proof (induction calls lc rule: LeastConnections_run.induct)
  case (1 lc)
  then show ?case by simp
next
  case (2 cs lc)
  note s = select_unhealthy[OF "2.prems"(1)]
  have s2: "all_unhealthy u (lc_targets (snd (LeastConnections_NextTarget lc)))"
    using s by blast
  obtain r lc1 where n: "LeastConnections_NextTarget lc = (r, lc1)" by force
  have ih: "Some u \<notin> set (fst (LeastConnections_run cs lc1)) \<and>
         all_unhealthy u (lc_targets (snd (LeastConnections_run cs lc1))) \<and>
         connections_of u (lc_targets (snd (LeastConnections_run cs lc1))) =
           connections_of u (lc_targets lc1) \<and>
         map ct_URL (lc_targets (snd (LeastConnections_run cs lc1))) = map ct_URL (lc_targets lc1)"
    using "2.IH"[OF n[symmetric] refl] s2 n "2.prems"(2) by simp
  show ?case using ih s n by (auto simp: split_beta)
next
  case (3 v cs lc)
  have "v \<noteq> u" using "3.prems"(2) by auto
  then have "all_unhealthy u (lc_targets (LeastConnections_MarkHealthy lc v))"
    using "3.prems"(1) by (simp add: LeastConnections_MarkHealthy_def setHealthy_keeps_unhealthy)
  then show ?case using "3.IH" "3.prems"(2)
    by (simp add: LeastConnections_MarkHealthy_def setHealthy_connections_of setHealthy_urls)
next
  case (4 v cs lc)
  have "all_unhealthy u (lc_targets (LeastConnections_MarkUnhealthy lc v))"
    using "4.prems"(1) by (simp add: LeastConnections_MarkUnhealthy_def setHealthy_keeps_unhealthy)
  then show ?case using "4.IH" "4.prems"(2)
    by (simp add: LeastConnections_MarkUnhealthy_def setHealthy_connections_of setHealthy_urls)
qed

lemma eligible_selected:
  assumes f: "findTarget u (lc_targets lc) = Some t" and h: "Healthy t"
    and m: "\<forall>t'\<in>set (lc_targets lc). Healthy t' \<and> ct_URL t' \<noteq> u \<longrightarrow>
              sint (Connections t) < sint (Connections t')"
  shows "fst (LeastConnections_NextTarget lc) = Some u"
proof -
  let ?ts = "lc_targets lc"
  have tin: "t \<in> set ?ts" "ct_URL t = u" using findTarget_Some[OF f] by simp_all
  then obtain i where i: "i < length ?ts" "?ts ! i = t" by (auto simp: in_set_conv_nth)
  have ne: "?ts \<noteq> []" using tin by auto
  show ?thesis
  proof (cases "selectLeast ?ts")
    case None
    then show ?thesis using selectLeast_None[OF None] i h by auto
  next
    case (Some s)
    note sl = selectLeast_Some[OF Some]
    have le: "sint (Connections (?ts ! s)) \<le> sint (Connections t)"
      using sl(3) i h by auto
    have "ct_URL (?ts ! s) = u"
    proof (rule ccontr)
      assume "ct_URL (?ts ! s) \<noteq> u"
      moreover have "?ts ! s \<in> set ?ts" using sl(1) by simp
      ultimately have "sint (Connections t) < sint (Connections (?ts ! s))"
        using m sl(2) by blast
      then show False using le by simp
    qed
    then show ?thesis using Some ne
      by (simp add: LeastConnections_NextTarget_def LeastConnections_select_def)
  qed
qed


text \<open>An endpoint whose flag is unhealthy is never the selected one, whatever the URLs.\<close>

lemma select_skips_unhealthy:
  assumes "i < length (lc_targets lc)" and "\<not> Healthy (lc_targets lc ! i)"
  shows "fst (LeastConnections_select lc) \<noteq> Some i"
    and "lc_targets (snd (LeastConnections_select lc)) ! i = lc_targets lc ! i"
proof -
  show "fst (LeastConnections_select lc) \<noteq> Some i"
  proof (cases "selectLeast (lc_targets lc)")
    case None
    then show ?thesis by (simp add: LeastConnections_select_def)
  next
    case (Some s)
    then show ?thesis
      using selectLeast_Some(2)[OF Some] assms(2)
      by (auto simp: LeastConnections_select_def)
  qed
  show "lc_targets (snd (LeastConnections_select lc)) ! i = lc_targets lc ! i"
  proof (cases "selectLeast (lc_targets lc)")
    case None
    then show ?thesis by (simp add: LeastConnections_select_def)
  next
    case (Some s)
    have "s \<noteq> i" using selectLeast_Some(2)[OF Some] assms(2) by auto
    then show ?thesis using Some by (simp add: LeastConnections_select_def)
  qed
qed

text \<open>
  Claim C7, as stated, speaks of every reachable state. \<open>MarkUnhealthy\<close> marks only
  the first endpoint whose URL string matches, and the configuration check accepts a
  service that lists the same URL twice. On the balancer over \<open>[a, a]\<close>, after
  \<open>MarkUnhealthy a\<close> the balancer reports \<open>a\<close> as unhealthy, yet \<open>NextTarget\<close>
  returns \<open>a\<close> and a connection counter of \<open>a\<close> grows.
\<close>

theorem C7_duplicate_url_counterexample:
  "(let lc = LeastConnections_MarkUnhealthy
               (NewLeastConnections [''http://a'', ''http://a'']) ''http://a'';
        (r, lc') = LeastConnections_NextTarget lc
    in \<not> LeastConnections_IsHealthy lc ''http://a'' \<and>
       r = Some ''http://a'' \<and>
       connections_of ''http://a'' (lc_targets lc) = [0, 0] \<and>
       connections_of ''http://a'' (lc_targets lc') = [0, 1]) \<and>
   validateConfig (valid_config\<lparr>Routing := \<lparr>Services =
      [(''u'', valid_service\<lparr>URLs := [''http://a'', ''http://a''],
                              LoadBalancer := ''least_connections''\<rparr>)]\<rparr>\<rparr>) = None"
proof -
  have "validateConfig (valid_config\<lparr>Routing := \<lparr>Services =
      [(''u'', valid_service\<lparr>URLs := [''http://a'', ''http://a''],
                              LoadBalancer := ''least_connections''\<rparr>)]\<rparr>\<rparr>) = None"
    by (simp add: validateConfig_def valid_config_def)
  moreover have "(let lc = LeastConnections_MarkUnhealthy
               (NewLeastConnections [''http://a'', ''http://a'']) ''http://a'';
        (r, lc') = LeastConnections_NextTarget lc
    in \<not> LeastConnections_IsHealthy lc ''http://a'' \<and>
       r = Some ''http://a'' \<and>
       connections_of ''http://a'' (lc_targets lc) = [0, 0] \<and>
       connections_of ''http://a'' (lc_targets lc') = [0, 1])"
    by code_simp
  ultimately show ?thesis by blast
qed

text \<open>
  Claim C7, amended: for the least-connections balancer over endpoints with pairwise
  distinct URLs, in every state reachable by \<open>NextTarget\<close>, \<open>MarkHealthy\<close> and
  \<open>MarkUnhealthy\<close> calls, while an endpoint is marked unhealthy \<open>NextTarget\<close> never
  returns it and never increments its connection counter, and immediately after
  \<open>MarkHealthy\<close> it is eligible again. Stated for any
  balancer state \<open>lc\<close> with distinct endpoint URLs: after \<open>MarkUnhealthy u\<close>, over
  any sequence of calls without \<open>MarkHealthy u\<close>, no \<open>NextTarget\<close> returns \<open>u\<close>,
  the counter of \<open>u\<close> is unchanged and \<open>IsHealthy u\<close> is false; right after
  \<open>MarkHealthy u\<close>, \<open>IsHealthy u\<close> is true and \<open>NextTarget\<close> returns \<open>u\<close> as soon
  as its counter is below that of every other healthy endpoint.
\<close>

theorem C7_health_exclusion:
  "distinct (map ct_URL (lc_targets lc)) \<and> CallMarkHealthy u \<notin> set calls \<longrightarrow>
   (let lc1 = LeastConnections_MarkUnhealthy lc u;
        (outs, lc2) = LeastConnections_run calls lc1;
        lc3 = LeastConnections_MarkHealthy lc2 u
    in Some u \<notin> set outs \<and>
       connections_of u (lc_targets lc2) = connections_of u (lc_targets lc) \<and>
       \<not> LeastConnections_IsHealthy lc2 u \<and>
       (case findTarget u (lc_targets lc3) of
          None \<Rightarrow> u \<notin> set (map ct_URL (lc_targets lc))
        | Some t \<Rightarrow>
            LeastConnections_IsHealthy lc3 u \<and>
            ((\<forall>t'\<in>set (lc_targets lc3). Healthy t' \<and> ct_URL t' \<noteq> u \<longrightarrow>
                 sint (Connections t) < sint (Connections t')) \<longrightarrow>
             fst (LeastConnections_NextTarget lc3) = Some u)))"
proof (intro impI)
  assume a: "distinct (map ct_URL (lc_targets lc)) \<and> CallMarkHealthy u \<notin> set calls"
  let ?lc1 = "LeastConnections_MarkUnhealthy lc u"
  let ?lc2 = "snd (LeastConnections_run calls ?lc1)"
  let ?outs = "fst (LeastConnections_run calls ?lc1)"
  let ?lc3 = "LeastConnections_MarkHealthy ?lc2 u"
  have q1: "all_unhealthy u (lc_targets ?lc1)"
    using a by (simp add: LeastConnections_MarkUnhealthy_def setHealthy_distinct_all)
  have c1: "connections_of u (lc_targets ?lc1) = connections_of u (lc_targets lc)"
    and u1: "map ct_URL (lc_targets ?lc1) = map ct_URL (lc_targets lc)"
    by (simp_all add: LeastConnections_MarkUnhealthy_def setHealthy_connections_of setHealthy_urls)
  have r: "Some u \<notin> set ?outs" "all_unhealthy u (lc_targets ?lc2)"
    "connections_of u (lc_targets ?lc2) = connections_of u (lc_targets ?lc1)"
    "map ct_URL (lc_targets ?lc2) = map ct_URL (lc_targets ?lc1)"
    using run_unhealthy[OF q1, of calls] a by simp_all
  have 1: "Some u \<notin> set ?outs" by (rule r(1))
  have 2: "connections_of u (lc_targets ?lc2) = connections_of u (lc_targets lc)"
    using r(3) c1 by simp
  have 3: "\<not> LeastConnections_IsHealthy ?lc2 u"
  proof (cases "findTarget u (lc_targets ?lc2)")
    case None
    then show ?thesis by (simp add: LeastConnections_IsHealthy_def)
  next
    case (Some t)
    then have "\<not> Healthy t"
      using findTarget_Some[OF Some] r(2) by (auto simp: all_unhealthy_def list_all_iff)
    then show ?thesis using Some by (simp add: LeastConnections_IsHealthy_def)
  qed
  have u3: "map ct_URL (lc_targets ?lc3) = map ct_URL (lc_targets lc)"
    using r(4) u1 by (simp add: LeastConnections_MarkHealthy_def setHealthy_urls)
  have 4: "(case findTarget u (lc_targets ?lc3) of
          None \<Rightarrow> u \<notin> set (map ct_URL (lc_targets lc))
        | Some t \<Rightarrow>
            LeastConnections_IsHealthy ?lc3 u \<and>
            ((\<forall>t'\<in>set (lc_targets ?lc3). Healthy t' \<and> ct_URL t' \<noteq> u \<longrightarrow>
                 sint (Connections t) < sint (Connections t')) \<longrightarrow>
             fst (LeastConnections_NextTarget ?lc3) = Some u))"
  proof (cases "findTarget u (lc_targets ?lc3)")
    case None
    then show ?thesis using findTarget_None[of u "lc_targets ?lc3"] u3 by simp
  next
    case (Some t)
    have "Healthy t"
      using Some by (auto simp: LeastConnections_MarkHealthy_def findTarget_setHealthy)
    then show ?thesis
      using Some eligible_selected[OF Some] by (simp add: LeastConnections_IsHealthy_def)
  qed
  show "let lc1 = LeastConnections_MarkUnhealthy lc u;
        (outs, lc2) = LeastConnections_run calls lc1;
        lc3 = LeastConnections_MarkHealthy lc2 u
    in Some u \<notin> set outs \<and>
       connections_of u (lc_targets lc2) = connections_of u (lc_targets lc) \<and>
       \<not> LeastConnections_IsHealthy lc2 u \<and>
       (case findTarget u (lc_targets lc3) of
          None \<Rightarrow> u \<notin> set (map ct_URL (lc_targets lc))
        | Some t \<Rightarrow>
            LeastConnections_IsHealthy lc3 u \<and>
            ((\<forall>t'\<in>set (lc_targets lc3). Healthy t' \<and> ct_URL t' \<noteq> u \<longrightarrow>
                 sint (Connections t) < sint (Connections t')) \<longrightarrow>
             fst (LeastConnections_NextTarget lc3) = Some u))"
    unfolding Let_def split_beta using 1 2 3 4 by blast
qed

theorem C7_health_exclusion_witness:
  "distinct (map ct_URL (lc_targets (NewLeastConnections [''http://a'', ''http://b'']))) \<and>
   CallMarkHealthy ''http://b'' \<notin> set [CallNextTarget, CallMarkUnhealthy ''http://b'', CallNextTarget] \<and>
   Some ''http://b'' \<notin> set (fst (LeastConnections_run
      [CallNextTarget, CallMarkUnhealthy ''http://b'', CallNextTarget]
      (LeastConnections_MarkUnhealthy (NewLeastConnections [''http://a'', ''http://b''])
         ''http://b''))) \<and>
   fst (LeastConnections_NextTarget (LeastConnections_MarkHealthy
      (snd (LeastConnections_run
         [CallNextTarget, CallMarkUnhealthy ''http://b'', CallNextTarget]
         (LeastConnections_MarkUnhealthy (NewLeastConnections [''http://a'', ''http://b''])
            ''http://b'')))
      ''http://b'')) = Some ''http://b''"
proof -
  let ?lc = "NewLeastConnections [''http://a'', ''http://b'']"
  let ?calls = "[CallNextTarget, CallMarkUnhealthy ''http://b'', CallNextTarget]"
  have h: "distinct (map ct_URL (lc_targets ?lc)) \<and> CallMarkHealthy ''http://b'' \<notin> set ?calls"
    by (simp add: NewLeastConnections_def)
  have e: "fst (LeastConnections_NextTarget (LeastConnections_MarkHealthy
      (snd (LeastConnections_run ?calls (LeastConnections_MarkUnhealthy ?lc ''http://b'')))
      ''http://b'')) = Some ''http://b''"
    by code_simp
  have "Some ''http://b'' \<notin> set (fst (LeastConnections_run ?calls
          (LeastConnections_MarkUnhealthy ?lc ''http://b'')))"
    using C7_health_exclusion[of ?lc "''http://b''" ?calls] h
    unfolding Let_def split_beta by blast
  then show ?thesis using h e by blast
qed

subsection \<open>Circuit breaker reset\<close>

lemma ResetBreaker_unchanged: "snd (ResetBreaker m name) = m"
  by (simp add: ResetBreaker_def split: option.splits)

text \<open>
  Claim C2 says that \<open>ResetBreaker(name)\<close>, for an existing enabled breaker, performs a
  true reset: after it returns nil the breaker is Closed and its counters are zero. The
  code returns nil and changes nothing. Evaluated on a manager whose enabled breaker \<open>u\<close>
  has tripped and is Open, \<open>ResetBreaker\<close> returns nil and the breaker is still Open,
  not Closed. Evaluated on the enabled breaker \<open>v\<close>, Closed after two failed calls,
  \<open>ResetBreaker\<close> returns nil and the breaker still counts two requests, two failures
  and two consecutive failures.
\<close>

theorem C2_reset_leaves_open_breaker:
  "(let counts = \<lparr>cnt_Requests = 2, cnt_TotalSuccesses = 0, cnt_TotalFailures = 2,
                    cnt_ConsecutiveSuccesses = 0, cnt_ConsecutiveFailures = 2\<rparr>;
        m = \<lparr>cm_breakers = [''u'' \<mapsto> \<lparr>cb_breaker = Some BreakerOpen\<rparr>,
                              ''v'' \<mapsto> \<lparr>cb_breaker = Some (BreakerClosed counts)\<rparr>]\<rparr>;
        (err, m') = ResetBreaker m ''u'';
        (err2, m2) = ResetBreaker m ''v''
    in err = None \<and>
       map_option CircuitBreaker_State (cm_breakers m' ''u'') = Some StateOpen \<and>
       map_option CircuitBreaker_Counts (cm_breakers m' ''u'') = Some zeroCounts \<and>
       err2 = None \<and>
       map_option CircuitBreaker_State (cm_breakers m2 ''v'') = Some StateClosed \<and>
       map_option (\<lambda>cb. cnt_Requests (CircuitBreaker_Counts cb)) (cm_breakers m2 ''v'')
         = Some 2 \<and>
       map_option (\<lambda>cb. cnt_TotalFailures (CircuitBreaker_Counts cb)) (cm_breakers m2 ''v'')
         = Some 2 \<and>
       map_option (\<lambda>cb. cnt_ConsecutiveFailures (CircuitBreaker_Counts cb)) (cm_breakers m2 ''v'')
         = Some 2)"
  by (simp add: ResetBreaker_def CircuitBreaker_State_def CircuitBreaker_Counts_def)

subsection \<open>Configuration loading\<close>

lemma validateConfig_None:
  "validateConfig config = None \<longleftrightarrow>
     0 < Port (Server config) \<and> Port (Server config) \<le> 65535 \<and>
     Secret (JWT (Auth config)) \<noteq> '''' \<and>
     \<not> (rl_Enabled (RateLimit config) \<and> Requests (rl_Default (RateLimit config)) \<le> 0)"
  by (auto simp: validateConfig_def)

text \<open>
  Claim C9, as stated: loading rejects every configuration with a service without
  endpoint URLs, a rate-limit rule with a non-positive limit or window, or an enabled
  breaker with a non-positive threshold or duration. Each of the five configurations
  below violates one of these and is loaded and made active.
\<close>

theorem C9_unvalidated_settings_counterexample:
  "config_Load \<lparr>cfg_active = Some valid_config\<rparr> (Unmarshalled no_endpoint_config) =
     (None, \<lparr>cfg_active = Some no_endpoint_config\<rparr>) \<and>
   config_Load \<lparr>cfg_active = Some valid_config\<rparr> (Unmarshalled zero_window_config) =
     (None, \<lparr>cfg_active = Some zero_window_config\<rparr>) \<and>
   config_Load \<lparr>cfg_active = Some valid_config\<rparr> (Unmarshalled zero_user_limit_config) =
     (None, \<lparr>cfg_active = Some zero_user_limit_config\<rparr>) \<and>
   config_Load \<lparr>cfg_active = Some valid_config\<rparr> (Unmarshalled disabled_zero_limit_config) =
     (None, \<lparr>cfg_active = Some disabled_zero_limit_config\<rparr>) \<and>
   config_Load \<lparr>cfg_active = Some valid_config\<rparr> (Unmarshalled zero_breaker_config) =
     (None, \<lparr>cfg_active = Some zero_breaker_config\<rparr>) \<and>
   URLs (snd (hd (Services (Routing no_endpoint_config)))) = [] \<and>
   Window (rl_Default (RateLimit zero_window_config)) = 0 \<and>
   Requests (snd (hd (rl_PerUser (RateLimit zero_user_limit_config)))) = 0 \<and>
   Requests (rl_Default (RateLimit disabled_zero_limit_config)) = 0 \<and>
   FailureThreshold (sc_CircuitBreaker (snd (hd (Services (Routing zero_breaker_config))))) = 0"
  by (simp add: config_Load_def validateConfig_def no_endpoint_config_def zero_window_config_def
      zero_user_limit_config_def disabled_zero_limit_config_def zero_breaker_config_def
      valid_config_def valid_service_def)

text \<open>
  Claim C9, amended: configuration loading rejects a configuration exactly when the
  server port is outside \<open>[1, 65535]\<close>, or the signing secret is empty, or rate limiting
  is enabled and the default rule's limit is not positive; whenever loading is rejected
  (also when the file cannot be read or unmarshalled) the previously loaded configuration
  remains the active one, unchanged; an accepted configuration becomes the active one.
\<close>

theorem C9_validation_rejects:
  "(fst (config_Load m (Unmarshalled config)) \<noteq> None \<longleftrightarrow>
      Port (Server config) < 1 \<or> 65535 < Port (Server config) \<or>
      Secret (JWT (Auth config)) = '''' \<or>
      (rl_Enabled (RateLimit config) \<and> Requests (rl_Default (RateLimit config)) \<le> 0)) \<and>
   (fst (config_Load m file) \<noteq> None \<longrightarrow> snd (config_Load m file) = m) \<and>
   (fst (config_Load m (Unmarshalled config)) = None \<longrightarrow>
      snd (config_Load m (Unmarshalled config)) = m\<lparr>cfg_active := Some config\<rparr>)"
  by (auto simp: config_Load_def validateConfig_def split: viper_outcome.splits option.splits)

theorem C9_validation_rejects_witness:
  "fst (config_Load \<lparr>cfg_active = Some valid_config\<rparr>
         (Unmarshalled (valid_config\<lparr>Server := \<lparr>Port = 0, Host = ''0.0.0.0''\<rparr>\<rparr>))) \<noteq> None \<and>
   snd (config_Load \<lparr>cfg_active = Some valid_config\<rparr>
         (Unmarshalled (valid_config\<lparr>Server := \<lparr>Port = 0, Host = ''0.0.0.0''\<rparr>\<rparr>))) =
     \<lparr>cfg_active = Some valid_config\<rparr> \<and>
   fst (config_Load \<lparr>cfg_active = None\<rparr> (Unmarshalled valid_config)) = None \<and>
   snd (config_Load \<lparr>cfg_active = None\<rparr> (Unmarshalled valid_config)) =
     \<lparr>cfg_active = Some valid_config\<rparr>"
proof -
  let ?bad = "valid_config\<lparr>Server := \<lparr>Port = 0, Host = ''0.0.0.0''\<rparr>\<rparr>"
  let ?m = "\<lparr>cfg_active = Some valid_config\<rparr>"
  have p: "Port (Server ?bad) < 1" by simp
  have 1: "fst (config_Load ?m (Unmarshalled ?bad)) \<noteq> None"
    using C9_validation_rejects[of ?m ?bad "Unmarshalled ?bad"] p by blast
  then have 2: "snd (config_Load ?m (Unmarshalled ?bad)) = ?m"
    using C9_validation_rejects[of ?m ?bad "Unmarshalled ?bad"] by blast
  have g: "\<not> (Port (Server valid_config) < 1 \<or> 65535 < Port (Server valid_config) \<or>
      Secret (JWT (Auth valid_config)) = '''' \<or>
      (rl_Enabled (RateLimit valid_config) \<and>
       Requests (rl_Default (RateLimit valid_config)) \<le> 0))"
    by (simp add: valid_config_def)
  have 3: "fst (config_Load \<lparr>cfg_active = None\<rparr> (Unmarshalled valid_config)) = None"
    using C9_validation_rejects[of "\<lparr>cfg_active = None\<rparr>" valid_config "Unmarshalled valid_config"] g
    by blast
  then have 4: "snd (config_Load \<lparr>cfg_active = None\<rparr> (Unmarshalled valid_config)) =
     \<lparr>cfg_active = None\<rparr>\<lparr>cfg_active := Some valid_config\<rparr>"
    using C9_validation_rejects[of "\<lparr>cfg_active = None\<rparr>" valid_config "Unmarshalled valid_config"]
    by blast
  show ?thesis using 1 2 3 4 by simp
qed

subsection \<open>Sliding window log\<close>

lemma oldPrefix_sorted:
  "sorted ts \<Longrightarrow> drop (oldPrefix cutoff ts) ts = filter (\<lambda>t. \<not> t < cutoff) ts"
proof (induction ts)
  case Nil
  then show ?case by simp
next
  case (Cons t ts)
  show ?case
  proof (cases "t < cutoff")
    case True
    then show ?thesis using Cons by simp
  next
    case False
    then have "\<forall>x\<in>set ts. \<not> x < cutoff" using Cons.prems by auto
    then have "filter (\<lambda>t. \<not> t < cutoff) ts = ts" by (simp add: filter_id_conv)
    then show ?thesis using False by simp
  qed
qed

lemma allowedAt_snoc:
  "length outs = length calls \<Longrightarrow>
   allowedAt k (calls @ [(key, now)]) (outs @ [a]) =
     allowedAt k calls outs @ (if a \<and> key = k then [now] else [])"
  by (simp add: allowedAt_def)

lemma allowedAt_subset:
  "set (allowedAt k calls outs) \<subseteq> snd ` set calls"
  by (auto simp: allowedAt_def dest!: set_zip_leftD) force

lemma calls_snoc:
  "SlidingWindow_calls (calls @ [(key, now)]) sw =
     (fst (SlidingWindow_calls calls sw) @
        [fst (fst (SlidingWindow_Allow (snd (SlidingWindow_calls calls sw)) key now))],
      snd (SlidingWindow_Allow (snd (SlidingWindow_calls calls sw)) key now))"
  by (induction calls arbitrary: sw) (auto simp: split_beta)

lemma sw_inv_new: "sw_inv L W [] [] (NewSlidingWindow L W)"
  by (simp add: sw_inv_def NewSlidingWindow_def allowedAt_def)


lemma sw_step:
  fixes key :: string and now :: int
  assumes inv: "sw_inv L W calls outs sw"
    and W: "0 \<le> W" and L: "0 \<le> L"
    and mono: "\<forall>e\<in>set calls. snd e \<le> now"
  defines "recent \<equiv> filter (\<lambda>t. \<not> t < now - W) (allowedAt key calls outs)"
  defines "a \<equiv> fst (fst (SlidingWindow_Allow sw key now))"
  shows "a = (int (length recent) < L)"
    and "sw_windows (snd (SlidingWindow_Allow sw key now)) key =
           Some (recent @ (if a then [now] else []))"
    and "sw_inv L W (calls @ [(key, now)]) (outs @ [a]) (snd (SlidingWindow_Allow sw key now))"
proof -
  let ?A = "allowedAt key calls outs"
  let ?stored = "case sw_windows sw key of Some w \<Rightarrow> w | None \<Rightarrow> []"
  let ?cutoff = "now - W"
  have len: "length outs = length calls" and lim: "sw_limit sw = L" and win: "sw_window sw = W"
    using inv by (simp_all add: sw_inv_def)
  have invk: "sorted (allowedAt k calls outs) \<and>
          (case sw_windows sw k of
             None \<Rightarrow> allowedAt k calls outs = []
           | Some reqs \<Rightarrow>
               int (length reqs) \<le> L \<and>
               (\<exists>e\<in>set calls. reqs = filter (\<lambda>t. \<not> t < snd e - W) (allowedAt k calls outs)))"
    for k using inv by (simp add: sw_inv_def)
  have srt: "sorted ?A" using invk[of key] by simp
  have trimmed: "drop (oldPrefix ?cutoff ?stored) ?stored = recent"
  proof (cases "sw_windows sw key")
    case None
    then have "?A = []" using invk[of key] by simp
    then show ?thesis using None by (simp add: recent_def)
  next
    case (Some reqs)
    then obtain e where e: "e \<in> set calls" "reqs = filter (\<lambda>t. \<not> t < snd e - W) ?A"
      using invk[of key] by auto
    have "sorted reqs" using e(2) srt by (simp add: sorted_wrt_filter)
    then have "drop (oldPrefix ?cutoff reqs) reqs = filter (\<lambda>t. \<not> t < ?cutoff) reqs"
      by (rule oldPrefix_sorted)
    also have "\<dots> = filter (\<lambda>t. \<not> t < ?cutoff \<and> \<not> t < snd e - W) ?A"
      using e(2) by (auto intro: filter_cong)
    also have "\<dots> = filter (\<lambda>t. \<not> t < ?cutoff) ?A"
      using mono e(1) by (intro filter_cong) auto
    finally show ?thesis using Some by (simp add: recent_def)
  qed
  show a: "a = (int (length recent) < L)"
    using trimmed lim win by (auto simp: a_def SlidingWindow_Allow_def Let_def)
  show st: "sw_windows (snd (SlidingWindow_Allow sw key now)) key =
           Some (recent @ (if a then [now] else []))"
    using trimmed lim win a by (auto simp: SlidingWindow_Allow_def Let_def)
  have other: "sw_windows (snd (SlidingWindow_Allow sw key now)) k = sw_windows sw k"
    if "k \<noteq> key" for k
    using that by (simp add: SlidingWindow_Allow_def Let_def)
  have keep: "sw_limit (snd (SlidingWindow_Allow sw key now)) = L"
    "sw_window (snd (SlidingWindow_Allow sw key now)) = W"
    using lim win by (simp_all add: SlidingWindow_Allow_def Let_def)
  have le_now: "\<forall>t\<in>set (allowedAt k calls outs). t \<le> now" for k
    using allowedAt_subset[of k calls outs] mono by auto
  have "sorted (allowedAt k (calls @ [(key, now)]) (outs @ [a])) \<and>
          (case sw_windows (snd (SlidingWindow_Allow sw key now)) k of
             None \<Rightarrow> allowedAt k (calls @ [(key, now)]) (outs @ [a]) = []
           | Some reqs \<Rightarrow>
               int (length reqs) \<le> L \<and>
               (\<exists>e\<in>set (calls @ [(key, now)]).
                  reqs = filter (\<lambda>t. \<not> t < snd e - W)
                           (allowedAt k (calls @ [(key, now)]) (outs @ [a]))))" for k
  proof (cases "k = key")
    case False
    have old: "sorted (allowedAt k calls outs) \<and>
          (case sw_windows sw k of
             None \<Rightarrow> allowedAt k calls outs = []
           | Some reqs \<Rightarrow>
               int (length reqs) \<le> L \<and>
               (\<exists>e\<in>set calls. reqs = filter (\<lambda>t. \<not> t < snd e - W) (allowedAt k calls outs)))"
      using invk[of k] .
    have same: "allowedAt k (calls @ [(key, now)]) (outs @ [a]) = allowedAt k calls outs"
      using False len by (simp add: allowedAt_snoc)
    show ?thesis
      using old False other[OF False] same by (auto split: option.splits)
  next
    case True
    have A': "allowedAt key (calls @ [(key, now)]) (outs @ [a]) = ?A @ (if a then [now] else [])"
      using len by (simp add: allowedAt_snoc)
    have s': "sorted (?A @ (if a then [now] else []))"
      using srt le_now[of key] by (simp add: sorted_append)
    have f': "filter (\<lambda>t. \<not> t < now - W) (?A @ (if a then [now] else [])) =
              recent @ (if a then [now] else [])"
      using W by (simp add: recent_def)
    have "length recent \<le> length ?stored"
      using trimmed[symmetric] by simp
    moreover have "int (length ?stored) \<le> L"
      using invk[of key] L by (auto split: option.splits)
    ultimately have l': "int (length (recent @ (if a then [now] else []))) \<le> L"
      using a by auto
    show ?thesis
      using True st A' s' f' l' by (auto intro!: bexI[of _ "(key, now)"])
  qed
  then show "sw_inv L W (calls @ [(key, now)]) (outs @ [a]) (snd (SlidingWindow_Allow sw key now))"
    using len keep by (simp add: sw_inv_def)
qed

lemma sw_calls_inv:
  assumes W: "0 \<le> W" and L: "0 \<le> L"
  shows "sorted (map snd calls) \<Longrightarrow>
         sw_inv L W calls (fst (SlidingWindow_calls calls (NewSlidingWindow L W)))
           (snd (SlidingWindow_calls calls (NewSlidingWindow L W)))"
proof (induction calls rule: rev_induct)
  case Nil
  then show ?case by (simp add: sw_inv_new)
next
  case (snoc e calls)
  obtain key now where e: "e = (key, now)" by (cases e)
  have srt: "sorted (map snd calls)" and mono: "\<forall>e\<in>set calls. snd e \<le> now"
    using snoc.prems e by (auto simp: sorted_append)
  note ih = snoc.IH[OF srt]
  show ?case
    unfolding e calls_snoc fst_conv snd_conv
    using sw_step(3)[OF ih W L mono, of key] .
qed


text \<open>
  Claim C5: for the sliding-window-log limiter with window \<open>W\<close> and limit \<open>L\<close>, every
  \<open>Allow(key)\<close> first drops the stored timestamps older than \<open>W\<close> before the current
  time, allows exactly when the remaining count is below \<open>L\<close>, and appends the current
  timestamp exactly when it allows; so after any access the stored timestamps of the
  key are the allows of the last \<open>W\<close>, at most \<open>L\<close> of them. Stated for any sequence of
  calls with non-decreasing clock readings on a limiter built by \<open>NewSlidingWindow\<close>
  with \<open>0 \<le> W\<close> and \<open>0 \<le> L\<close>, at its last call \<open>Allow(key)\<close> at time \<open>now\<close>.
\<close>

theorem C5_sliding_window_exact:
  "0 \<le> W \<and> 0 \<le> L \<and> sorted (map snd (calls @ [(key, now)])) \<longrightarrow>
   (let (outs, sw) = SlidingWindow_calls (calls @ [(key, now)]) (NewSlidingWindow L W);
        recent = filter (\<lambda>t. \<not> t < now - W) (allowedAt key calls (butlast outs));
        allowed = last outs;
        stored = (case sw_windows sw key of Some reqs \<Rightarrow> reqs | None \<Rightarrow> [])
    in allowed = (int (length recent) < L) \<and>
       sw_windows sw key = Some (recent @ (if allowed then [now] else [])) \<and>
       stored = filter (\<lambda>t. \<not> t < now - W) (allowedAt key (calls @ [(key, now)]) outs) \<and>
       int (length stored) \<le> L)"
proof (intro impI)
  assume h: "0 \<le> W \<and> 0 \<le> L \<and> sorted (map snd (calls @ [(key, now)]))"
  let ?prev = "fst (SlidingWindow_calls calls (NewSlidingWindow L W))"
  let ?before = "snd (SlidingWindow_calls calls (NewSlidingWindow L W))"
  let ?a = "fst (fst (SlidingWindow_Allow ?before key now))"
  let ?sw = "snd (SlidingWindow_Allow ?before key now)"
  let ?recent = "filter (\<lambda>t. \<not> t < now - W) (allowedAt key calls ?prev)"
  have W: "0 \<le> W" and L: "0 \<le> L" using h by simp_all
  have srt: "sorted (map snd calls)" and mono: "\<forall>e\<in>set calls. snd e \<le> now"
    using h by (auto simp: sorted_append)
  have inv0: "sw_inv L W calls ?prev ?before" using sw_calls_inv[OF W L srt] .
  note st = sw_step[OF inv0 W L mono, of key]
  have len: "length ?prev = length calls" using inv0 by (simp add: sw_inv_def)
  have run: "SlidingWindow_calls (calls @ [(key, now)]) (NewSlidingWindow L W) =
             (?prev @ [?a], ?sw)"
    by (simp add: calls_snoc)
  have 1: "?a = (int (length ?recent) < L)" using st(1) .
  have 2: "sw_windows ?sw key = Some (?recent @ (if ?a then [now] else []))" using st(2) .
  have 3: "?recent @ (if ?a then [now] else []) =
           filter (\<lambda>t. \<not> t < now - W) (allowedAt key (calls @ [(key, now)]) (?prev @ [?a]))"
    using W len by (simp add: allowedAt_snoc)
  have "\<forall>k. (case sw_windows ?sw k of
               None \<Rightarrow> True
             | Some reqs \<Rightarrow> int (length reqs) \<le> L)"
    using st(3) by (auto simp: sw_inv_def split: option.splits)
  then have "case sw_windows ?sw key of
               None \<Rightarrow> True
             | Some reqs \<Rightarrow> int (length reqs) \<le> L"
    by (rule spec)
  then have 4: "int (length (?recent @ (if ?a then [now] else []))) \<le> L"
    using 2 by simp
  have 5: "(case sw_windows ?sw key of Some reqs \<Rightarrow> reqs | None \<Rightarrow> []) =
           ?recent @ (if ?a then [now] else [])"
    using 2 by simp
  show "let (outs, sw) = SlidingWindow_calls (calls @ [(key, now)]) (NewSlidingWindow L W);
        recent = filter (\<lambda>t. \<not> t < now - W) (allowedAt key calls (butlast outs));
        allowed = last outs;
        stored = (case sw_windows sw key of Some reqs \<Rightarrow> reqs | None \<Rightarrow> [])
    in allowed = (int (length recent) < L) \<and>
       sw_windows sw key = Some (recent @ (if allowed then [now] else [])) \<and>
       stored = filter (\<lambda>t. \<not> t < now - W) (allowedAt key (calls @ [(key, now)]) outs) \<and>
       int (length stored) \<le> L"
    unfolding run Let_def split_conv butlast_snoc last_snoc 5
    using 1 2 3 4 by (intro conjI)
qed

theorem C5_sliding_window_exact_witness:
  "(0::int) \<le> 10 \<and> (0::int) \<le> 2 \<and>
   sorted (map snd ([(''k'', 0), (''k'', 1), (''k'', 2)] @ [(''k'', 11::int)])) \<and>
   fst (SlidingWindow_calls ([(''k'', 0), (''k'', 1), (''k'', 2)] @ [(''k'', 11)])
          (NewSlidingWindow 2 10)) = [True, True, False, True] \<and>
   sw_windows (snd (SlidingWindow_calls ([(''k'', 0), (''k'', 1), (''k'', 2)] @ [(''k'', 11)])
          (NewSlidingWindow 2 10))) ''k'' = Some [1, 11]"
proof -
  let ?calls = "[(''k'', 0), (''k'', 1), (''k'', 2::int)]"
  have h: "(0::int) \<le> 10 \<and> (0::int) \<le> 2 \<and> sorted (map snd (?calls @ [(''k'', 11::int)]))"
    by simp
  have ev: "fst (SlidingWindow_calls (?calls @ [(''k'', 11)]) (NewSlidingWindow 2 10)) =
            [True, True, False, True]"
    by code_simp
  have ev2: "filter (\<lambda>t. \<not> t < 11 - 10) (allowedAt ''k'' ?calls [True, True, False]) = [1]"
    by code_simp
  have "let (outs, sw) = SlidingWindow_calls (?calls @ [(''k'', 11)]) (NewSlidingWindow 2 10);
        recent = filter (\<lambda>t. \<not> t < 11 - 10) (allowedAt ''k'' ?calls (butlast outs));
        allowed = last outs;
        stored = (case sw_windows sw ''k'' of Some reqs \<Rightarrow> reqs | None \<Rightarrow> [])
    in allowed = (int (length recent) < 2) \<and>
       sw_windows sw ''k'' = Some (recent @ (if allowed then [11] else [])) \<and>
       stored = filter (\<lambda>t. \<not> t < 11 - 10) (allowedAt ''k'' (?calls @ [(''k'', 11)]) outs) \<and>
       int (length stored) \<le> 2"
    using C5_sliding_window_exact[of 10 2 ?calls "''k''" 11] h by blast
  then have "sw_windows (snd (SlidingWindow_calls (?calls @ [(''k'', 11)])
          (NewSlidingWindow 2 10))) ''k'' = Some [1, 11]"
    unfolding Let_def split_beta ev using ev2 by simp
  then show ?thesis using h ev by blast
qed

subsection \<open>Distributed limiter script\<close>

text \<open>
  Claim C4 says that the script first removes the entries older than \<open>now_ms\<close> minus
  \<open>window_ms\<close>. The script computes the bound as \<open>now - window * 1000\<close> while \<open>Allow\<close>
  passes the window already in milliseconds: with a window of one second
  (\<open>window_ms = 1000\<close>), limit 1 and one entry of score 0, a call at \<open>now_ms = 5000\<close>
  keeps the entry, which is five windows old, and denies the request.
\<close>

theorem C4_script_keeps_entry_older_than_window:
  "(let r = \<lparr>redis_up = True, redis_zsets = [''k'' \<mapsto> [(0, 0)]], redis_ttl = Map.empty\<rparr>;
        ((allowed, remaining), r') = rateLimitScript r ''k'' 1000 1 5000
    in allowed = 0 \<and> remaining = 0 \<and> redis_zsets r' ''k'' = Some [(0, 0)] \<and>
       fst (DistributedRateLimit_Allow (NewDistributedRateLimit 1 1000000000) ''k''
              5000000000 r) = (False, None))"
  by (simp add: rateLimitScript_def zremrangebyscore_def zcard_def zadd_def
      DistributedRateLimit_Allow_def NewDistributedRateLimit_def go_div_def Let_def)

subsection \<open>Rate limit manager\<close>

lemma registerRules_other:
  assumes "\<forall>ident. prefix @ ident \<noteq> k"
  shows "registerRules prefix algorithm redisClient rules algs k = algs k"
proof (induction rules arbitrary: algs)
  case Nil
  then show ?case by simp
next
  case (Cons rule rules)
  obtain ident ru where r: "rule = (ident, ru)" by (cases rule)
  have "prefix @ ident \<noteq> k" using assms by blast
  then show ?case using Cons r by (simp split: option.splits)
qed

lemma initializeAlgorithms_default:
  "rl_algorithms (initializeAlgorithms m redisClient) ''default'' =
     Some (defaultAlgorithm (rl_config m) redisClient)"
  by (simp add: initializeAlgorithms_def Let_def registerRules_other)

lemma NewManager_default:
  "rl_Enabled cfg \<Longrightarrow>
   rl_algorithms (ratelimit_NewManager cfg redisClient) ''default'' =
     Some (defaultAlgorithm cfg redisClient)"
  by (simp add: ratelimit_NewManager_def initializeAlgorithms_default)

lemma UpdateConfig_default:
  "rl_Enabled cfg \<Longrightarrow>
   rl_algorithms (ratelimit_UpdateConfig m cfg redisClient) ''default'' =
     Some (defaultAlgorithm cfg redisClient)"
  by (simp add: ratelimit_UpdateConfig_def initializeAlgorithms_default)

lemma NewManager_config: "rl_config (ratelimit_NewManager cfg redisClient) = cfg"
  by (simp add: ratelimit_NewManager_def initializeAlgorithms_def Let_def)

lemma distributed_without_redis:
  "rl_Enabled cfg \<Longrightarrow> rl_Algorithm cfg = ''distributed'' \<Longrightarrow>
   rl_algorithms (ratelimit_NewManager cfg False) ''default'' =
     Some (TokenBucketAlg (NewTokenBucket (Requests (rl_Default cfg)) (Burst (rl_Default cfg))))"
  by (simp add: NewManager_default defaultAlgorithm_def)

lemma registerRules_unscoped:
  "registerRules prefix ''distributed'' False rules algs = algs"
  by (induction rules arbitrary: algs) (auto simp: scopedAlgorithm_def)

lemma distributed_without_redis_only_default:
  "rl_Enabled cfg \<Longrightarrow> rl_Algorithm cfg = ''distributed'' \<Longrightarrow>
   rl_algorithms (ratelimit_NewManager cfg False) =
     [''default'' \<mapsto>
        TokenBucketAlg (NewTokenBucket (Requests (rl_Default cfg)) (Burst (rl_Default cfg)))]"
  by (simp add: ratelimit_NewManager_def initializeAlgorithms_def Let_def
      registerRules_unscoped defaultAlgorithm_def)

lemma CheckLimit_decision:
  assumes "rl_Enabled (rl_config m)" and "rl_algorithms m ''default'' = Some d"
  shows "fst (CheckLimit pkg m key now r) =
           fst (Algorithm_Allow pkg (case rl_algorithms m key of Some a \<Rightarrow> a | None \<Rightarrow> d)
                  key now r)"
    and "rl_algorithms (fst (snd (CheckLimit pkg m key now r))) ''default'' \<noteq> None"
    and "rl_config (fst (snd (CheckLimit pkg m key now r))) = rl_config m"
  using assms by (auto simp: CheckLimit_def Let_def split_beta split: option.splits)

text \<open>
  Claim C10, as stated, gives as an instance of the second fail-open case the
  distributed algorithm configured without a Redis client. On the code such a manager
  has a \<open>"default"\<close> algorithm, a token bucket, and \<open>CheckLimit\<close> can deny: with a
  default rule of five requests per second and burst 1, of two checks of one key a
  millisecond apart the first is allowed and the second is denied.
\<close>

theorem C10_distributed_without_redis_denies_counterexample:
  "(let m0 = ratelimit_NewManager distributed_without_client False;
        (d1, m1, r1) = CheckLimit token_refill m0 ''1.2.3.4'' 0 redis_absent;
        (d2, m2, r2) = CheckLimit token_refill m1 ''1.2.3.4'' 1000000 r1
    in rl_Enabled (rl_config m0) \<and>
       rl_algorithms m0 ''1.2.3.4'' = None \<and>
       rl_algorithms m0 ''default'' = Some (TokenBucketAlg (NewTokenBucket 5 1)) \<and>
       d1 = (True, None) \<and> d2 = (False, None))"
  by (simp add: distributed_without_redis_only_default NewManager_config
      distributed_without_client_def CheckLimit_def TokenBucket_Allow_def NewTokenBucket_def
      token_refill_def Let_def)

text \<open>
  Claim C10, amended: \<open>CheckLimit\<close> returns \<open>(true, nil)\<close> for every key, and leaves
  the manager and the store untouched, when rate limiting is disabled in the
  configuration. When it is enabled, \<open>NewManager\<close> and \<open>UpdateConfig\<close> always
  register a \<open>"default"\<close> algorithm, and on a manager with a \<open>"default"\<close> algorithm
  \<open>CheckLimit\<close> returns the decision of the algorithm registered for the key, or else
  of the default one, and the default stays registered. For the distributed algorithm
  without a Redis client the default is a token bucket and the only algorithm, so the
  decision is the one of the token bucket's limiter for the key.
\<close>

theorem C10_check_limit_disabled_or_default:
  "(\<not> rl_Enabled (rl_config m) \<longrightarrow>
      CheckLimit pkg m key now r = ((True, None), m, r)) \<and>
   (rl_Enabled cfg \<longrightarrow>
      rl_algorithms (ratelimit_NewManager cfg redisClient) ''default'' =
        Some (defaultAlgorithm cfg redisClient) \<and>
      rl_algorithms (ratelimit_UpdateConfig m cfg redisClient) ''default'' =
        Some (defaultAlgorithm cfg redisClient)) \<and>
   (rl_Enabled (rl_config m) \<and> rl_algorithms m ''default'' = Some d \<longrightarrow>
      fst (CheckLimit pkg m key now r) =
        fst (Algorithm_Allow pkg (case rl_algorithms m key of Some a \<Rightarrow> a | None \<Rightarrow> d)
               key now r) \<and>
      rl_algorithms (fst (snd (CheckLimit pkg m key now r))) ''default'' \<noteq> None \<and>
      rl_config (fst (snd (CheckLimit pkg m key now r))) = rl_config m) \<and>
   (rl_Enabled cfg \<and> rl_Algorithm cfg = ''distributed'' \<longrightarrow>
      rl_algorithms (ratelimit_NewManager cfg False) =
        [''default'' \<mapsto>
           TokenBucketAlg (NewTokenBucket (Requests (rl_Default cfg)) (Burst (rl_Default cfg)))] \<and>
      fst (CheckLimit pkg (ratelimit_NewManager cfg False) key now r) =
        (fst (rate_Allow pkg
                (rate_NewLimiter pkg (Requests (rl_Default cfg)) (Burst (rl_Default cfg))) now),
         None))"
proof (intro conjI impI)
  assume "\<not> rl_Enabled (rl_config m)"
  then show "CheckLimit pkg m key now r = ((True, None), m, r)"
    by (simp add: CheckLimit_def)
next
  assume "rl_Enabled cfg"
  then show "rl_algorithms (ratelimit_NewManager cfg redisClient) ''default'' =
        Some (defaultAlgorithm cfg redisClient)"
    by (rule NewManager_default)
next
  assume "rl_Enabled cfg"
  then show "rl_algorithms (ratelimit_UpdateConfig m cfg redisClient) ''default'' =
        Some (defaultAlgorithm cfg redisClient)"
    by (rule UpdateConfig_default)
next
  assume a: "rl_Enabled (rl_config m) \<and> rl_algorithms m ''default'' = Some d"
  show "fst (CheckLimit pkg m key now r) =
        fst (Algorithm_Allow pkg (case rl_algorithms m key of Some a \<Rightarrow> a | None \<Rightarrow> d)
               key now r)"
    using CheckLimit_decision(1)[of m d] a by blast
next
  assume a: "rl_Enabled (rl_config m) \<and> rl_algorithms m ''default'' = Some d"
  show "rl_algorithms (fst (snd (CheckLimit pkg m key now r))) ''default'' \<noteq> None"
    using CheckLimit_decision(2)[of m d] a by blast
next
  assume a: "rl_Enabled (rl_config m) \<and> rl_algorithms m ''default'' = Some d"
  show "rl_config (fst (snd (CheckLimit pkg m key now r))) = rl_config m"
    using CheckLimit_decision(3)[of m d] a by blast
next
  assume a: "rl_Enabled cfg \<and> rl_Algorithm cfg = ''distributed''"
  show "rl_algorithms (ratelimit_NewManager cfg False) =
        [''default'' \<mapsto>
           TokenBucketAlg (NewTokenBucket (Requests (rl_Default cfg)) (Burst (rl_Default cfg)))]"
    using distributed_without_redis_only_default a by blast
next
  assume a: "rl_Enabled cfg \<and> rl_Algorithm cfg = ''distributed''"
  have algs: "rl_algorithms (ratelimit_NewManager cfg False) =
        [''default'' \<mapsto>
           TokenBucketAlg (NewTokenBucket (Requests (rl_Default cfg)) (Burst (rl_Default cfg)))]"
    using distributed_without_redis_only_default a by blast
  show "fst (CheckLimit pkg (ratelimit_NewManager cfg False) key now r) =
        (fst (rate_Allow pkg
                (rate_NewLimiter pkg (Requests (rl_Default cfg)) (Burst (rl_Default cfg))) now),
         None)"
    using a
    by (simp add: CheckLimit_def NewManager_config algs TokenBucket_Allow_def
        NewTokenBucket_def Let_def split_beta)
qed

theorem C10_check_limit_disabled_or_default_witness:
  "\<not> rl_Enabled (rl_config (ratelimit_NewManager disabled_distributed False
                                :: rate_Limiter ratelimit_Manager)) \<and>
   fst (CheckLimit token_refill (ratelimit_NewManager disabled_distributed False)
          ''1.2.3.4'' 0 redis_absent) = (True, None) \<and>
   rl_Enabled distributed_without_client \<and>
   rl_Algorithm distributed_without_client = ''distributed'' \<and>
   rl_Enabled (rl_config (ratelimit_NewManager distributed_without_client False
                             :: rate_Limiter ratelimit_Manager)) \<and>
   rl_algorithms (ratelimit_NewManager distributed_without_client False
                    :: rate_Limiter ratelimit_Manager) ''default'' =
     Some (TokenBucketAlg (NewTokenBucket 5 1)) \<and>
   fst (CheckLimit token_refill (ratelimit_NewManager distributed_without_client False)
          ''1.2.3.4'' 0 redis_absent) = (True, None)"
proof -
  let ?m1 = "ratelimit_NewManager disabled_distributed False :: rate_Limiter ratelimit_Manager"
  let ?m2 = "ratelimit_NewManager distributed_without_client False :: rate_Limiter ratelimit_Manager"
  let ?d = "TokenBucketAlg (NewTokenBucket 5 1) :: rate_Limiter Algorithm"
  have h1: "\<not> rl_Enabled (rl_config ?m1)"
    by (simp add: NewManager_config disabled_distributed_def)
  have h2: "rl_Enabled distributed_without_client \<and>
            rl_Algorithm distributed_without_client = ''distributed''"
    by (simp add: distributed_without_client_def)
  have h3: "rl_Enabled (rl_config ?m2)"
    using h2 by (simp add: NewManager_config)
  have 1: "CheckLimit token_refill ?m1 ''1.2.3.4'' 0 redis_absent =
             ((True, None), ?m1, redis_absent)"
    using C10_check_limit_disabled_or_default
            [of ?m1 token_refill "''1.2.3.4''" 0 redis_absent disabled_distributed False ?d] h1
    by blast
  have 2: "rl_algorithms ?m2 =
             [''default'' \<mapsto>
                TokenBucketAlg (NewTokenBucket (Requests (rl_Default distributed_without_client))
                                  (Burst (rl_Default distributed_without_client)))] \<and>
           fst (CheckLimit token_refill ?m2 ''1.2.3.4'' 0 redis_absent) =
             (fst (rate_Allow token_refill
                (rate_NewLimiter token_refill (Requests (rl_Default distributed_without_client))
                   (Burst (rl_Default distributed_without_client))) 0), None)"
    using C10_check_limit_disabled_or_default
            [of ?m2 token_refill "''1.2.3.4''" 0 redis_absent distributed_without_client False ?d]
          h2
    by blast
  have 3: "rl_algorithms ?m2 ''default'' = Some ?d"
    using 2 by (simp add: distributed_without_client_def)
  have 4: "fst (CheckLimit token_refill ?m2 ''1.2.3.4'' 0 redis_absent) = (True, None)"
    using 2 by (simp add: distributed_without_client_def token_refill_def)
  show ?thesis using h1 h2 h3 1 3 4 by simp
qed

subsection \<open>Rate limit middleware\<close>

text \<open>
  The key of the rate limit stage, in general: the \<open>UserID\<close> of the claims stored
  under \<open>"user"\<close> when they are present and that id is not empty, and the client IP
  otherwise, in both cases without a prefix; the request headers (an API key among
  them) play no part; and this key is what the stage passes to \<open>CheckLimit\<close>.
\<close>

lemma rate_limit_stage_key:
  "rateLimitKey c =
     (case ctx_user c of
        Some (ClaimsValue userClaims) \<Rightarrow>
          if UserID userClaims = '''' then ctx_ClientIP c else UserID userClaims
      | Some OtherValue \<Rightarrow> ctx_ClientIP c
      | None \<Rightarrow> ctx_ClientIP c) \<and>
   rateLimitKey (c\<lparr>ctx_request_headers := hs\<rparr>) = rateLimitKey c \<and>
   snd (Middleware_RateLimit pkg m c now r) = snd (CheckLimit pkg m (rateLimitKey c) now r)"
  by (auto simp: rateLimitKey_def Middleware_RateLimit_def Let_def split_beta
      split: option.splits context_value.splits)

lemma per_user_manager:
  "rl_Enabled (rl_config (ratelimit_NewManager per_user_config False))"
  "rl_algorithms (ratelimit_NewManager per_user_config False) =
     [''default'' \<mapsto> SlidingWindowAlg (NewSlidingWindow 100 1000000000),
      ''user:alice'' \<mapsto> SlidingWindowAlg (NewSlidingWindow 1 1000000000)]"
  by (simp_all add: ratelimit_NewManager_def initializeAlgorithms_def Let_def
      per_user_config_def defaultAlgorithm_def scopedAlgorithm_def)

text \<open>
  Claim C3 says that the rate-limit key is namespaced by scope: \<open>identity:<subject>\<close>
  when identity claims are present, else \<open>apikey:<hash>\<close> when an API key header is
  present, else \<open>ip:<remote-address>\<close>. The stage passes a bare key to \<open>CheckLimit\<close>:
  for a request from \<open>1.2.3.4\<close> without claims the key is \<open>1.2.3.4\<close>, not
  \<open>ip:1.2.3.4\<close>; for a request without claims that carries an \<open>X-API-Key\<close> header
  it is the bare client IP; for a request with claims for \<open>alice\<close> it is \<open>alice\<close>.
  The manager registers the per-user rules under \<open>user:<id>\<close> and its scoped entry
  points prefix \<open>user:\<close>, \<open>ip:\<close> and \<open>apikey:\<close>, so the rule configured for
  \<open>alice\<close> (one request per second) is never found by the stage: two requests of
  \<open>alice\<close> within a millisecond both pass the stage under the default rule, while
  \<open>CheckUserLimit\<close> denies the second.
\<close>

theorem C3_rate_limit_key_has_no_namespace:
  "rateLimitKey anonymous_request = ''1.2.3.4'' \<and>
   rateLimitKey api_key_request = ''10.0.0.2'' \<and>
   rateLimitKey alice_request = ''alice'' \<and>
   (let m0 = ratelimit_NewManager per_user_config False;
        (h1, m1, r1) = Middleware_RateLimit no_token_bucket m0 alice_request 0 redis_absent;
        (h2, m2, r2) = Middleware_RateLimit no_token_bucket m1 alice_request 1000000 r1;
        (d1, n1, s1) = CheckUserLimit no_token_bucket m0 ''alice'' 0 redis_absent;
        (d2, n2, s2) = CheckUserLimit no_token_bucket n1 ''alice'' 1000000 s1
    in rl_algorithms m0 ''alice'' = None \<and>
       rl_algorithms m0 ''user:alice'' =
         Some (SlidingWindowAlg (NewSlidingWindow 1 1000000000)) \<and>
       h1 = Next \<and> h2 = Next \<and> d1 = (True, None) \<and> d2 = (False, None))"
  by (simp add: rateLimitKey_def anonymous_request_def api_key_request_def alice_request_def
      per_user_manager Middleware_RateLimit_def CheckUserLimit_def CheckLimit_def
      SlidingWindow_Allow_def NewSlidingWindow_def Let_def)

lemma after_first_request_eval:
  "rl_config after_first_request = one_per_second"
  "rl_algorithms after_first_request ''1.2.3.4'' = None"
  "rl_algorithms after_first_request ''default'' =
     Some (SlidingWindowAlg \<lparr>sw_windows = [''1.2.3.4'' \<mapsto> [0]], sw_limit = 1,
                              sw_window = 1000000000\<rparr>)"
  by (simp_all add: after_first_request_def Middleware_RateLimit_def CheckLimit_def
      ratelimit_NewManager_def initializeAlgorithms_def defaultAlgorithm_def one_per_second_def
      anonymous_request_def rateLimitKey_def SlidingWindow_Allow_def NewSlidingWindow_def
      Let_def)

lemma second_request_denied:
  "fst (CheckLimit no_token_bucket after_first_request (rateLimitKey anonymous_request)
          1000000 redis_absent) = (False, None)"
  by (simp add: CheckLimit_def after_first_request_eval one_per_second_def
      anonymous_request_def rateLimitKey_def SlidingWindow_Allow_def Let_def)

text \<open>
  Claim C8, as stated: on a denial the headers reflect the limiter's state, with
  \<open>X-RateLimit-Limit\<close> the applicable rule's limit and \<open>Retry-After\<close> the limiter's
  \<open>reset_after\<close> in seconds. With a rule of one request per second, the second
  request of a client within a millisecond is denied with \<open>X-RateLimit-Limit: 100\<close> and
  \<open>Retry-After: 60\<close>.
\<close>

theorem C8_headers_are_constants_counterexample:
  "(case fst (Middleware_RateLimit no_token_bucket after_first_request anonymous_request
               1000000 redis_absent) of
      Next \<Rightarrow> False
    | Abort resp \<Rightarrow>
        resp_status resp = 429 \<and>
        resp_headers resp ''X-RateLimit-Limit'' = Some ''100'' \<and>
        resp_headers resp ''Retry-After'' = Some ''60'') \<and>
   Requests (rl_Default (rl_config after_first_request)) = 1 \<and>
   Window (rl_Default (rl_config after_first_request)) = 1000000000"
  using second_request_denied
  by (simp add: Middleware_RateLimit_def split_beta after_first_request_eval one_per_second_def)

text \<open>
  Claim C8, amended: whenever the rate limiter denies a request, the stage aborts the
  chain with status 429, \<open>X-RateLimit-Remaining\<close> is \<open>0\<close> and \<open>Retry-After\<close> is the
  constant \<open>60\<close>, which the body repeats as \<open>retry_after\<close>.
\<close>

theorem C8_denied_response:
  "fst (CheckLimit pkg m (rateLimitKey c) now r) = (False, None) \<longrightarrow>
   (\<exists>resp. fst (Middleware_RateLimit pkg m c now r) = Abort resp \<and>
           resp_status resp = 429 \<and>
           resp_headers resp ''X-RateLimit-Remaining'' = Some ''0'' \<and>
           resp_headers resp ''Retry-After'' = Some ''60'' \<and>
           resp_body resp = [(''error'', JString ''Rate limit exceeded''),
                             (''retry_after'', JInt 60)])"
  by (auto simp: Middleware_RateLimit_def Let_def split_beta)

theorem C8_denied_response_witness:
  "fst (CheckLimit no_token_bucket after_first_request (rateLimitKey anonymous_request)
          1000000 redis_absent) = (False, None) \<and>
   (\<exists>resp. fst (Middleware_RateLimit no_token_bucket after_first_request anonymous_request
                  1000000 redis_absent) = Abort resp \<and>
           resp_status resp = 429 \<and>
           resp_headers resp ''X-RateLimit-Remaining'' = Some ''0'' \<and>
           resp_headers resp ''Retry-After'' = Some ''60'' \<and>
           resp_body resp = [(''error'', JString ''Rate limit exceeded''),
                             (''retry_after'', JInt 60)])"
  using C8_denied_response[of no_token_bucket after_first_request anonymous_request
      1000000 redis_absent] second_request_denied
  by blast

end
